theory Spec2Isabelle
  imports Main "HOL-Library.Word" "HOL-Library.List_Lexorder"
begin

unbundle bit_operations_syntax

section \<open>Bytes, runtime faults and the Go primitives used by btree.go\<close>

text \<open>
  A \<open>BNode\<close> is a Go byte slice (\<open>type BNode []byte\<close>). It is modelled as the list of its
  bytes; the buffers of this package come from \<open>make([]byte, n)\<close>, so capacity and length
  coincide. Functions that write into a node return the updated node. Every runtime panic
  (slice or index out of range) and every failed \<open>utils.Assert\<close> is a value on the left
  of a sum.
\<close>

type_synonym byte = "8 word"
type_synonym u16 = "16 word"
type_synonym u64 = "64 word"
type_synonym BNode = "byte list"

datatype error = AssertFailed string | BoundsPanic

definition bindE :: "error + 'a \<Rightarrow> ('a \<Rightarrow> error + 'b) \<Rightarrow> error + 'b" where
  "bindE m f = (case m of Inl e \<Rightarrow> Inl e | Inr x \<Rightarrow> f x)"

text \<open>
  Modelled from the spec: \<open>utils.Assert\<close> lives in the package \<open>utils\<close>, which is not part
  of the sources at hand. The spec calls a violated assertion an unrecoverable internal
  fault that aborts the current operation.
\<close>

definition Assert :: "bool \<Rightarrow> string \<Rightarrow> error + unit" where
  "Assert c msg = (if c then Inr () else Inl (AssertFailed msg))"

text \<open>\<open>encoding/binary\<close>, little endian.\<close>

definition le16 :: "u16 \<Rightarrow> byte list" where
  "le16 v = [ucast v, ucast (drop_bit 8 v)]"

definition le64 :: "u64 \<Rightarrow> byte list" where
  "le64 v = [ucast v, ucast (drop_bit 8 v), ucast (drop_bit 16 v), ucast (drop_bit 24 v),
             ucast (drop_bit 32 v), ucast (drop_bit 40 v), ucast (drop_bit 48 v),
             ucast (drop_bit 56 v)]"

definition Uint16 :: "byte list \<Rightarrow> u16" where
  "Uint16 b = ucast (b ! 0) OR push_bit 8 (ucast (b ! 1))"

definition Uint64 :: "byte list \<Rightarrow> u64" where
  "Uint64 b = ucast (b ! 0) OR push_bit 8 (ucast (b ! 1)) OR push_bit 16 (ucast (b ! 2))
      OR push_bit 24 (ucast (b ! 3)) OR push_bit 32 (ucast (b ! 4))
      OR push_bit 40 (ucast (b ! 5)) OR push_bit 48 (ucast (b ! 6))
      OR push_bit 56 (ucast (b ! 7))"

text \<open>Overwriting the bytes of \<open>node\<close> from position \<open>pos\<close> on with \<open>bs\<close>.\<close>

definition store :: "BNode \<Rightarrow> nat \<Rightarrow> byte list \<Rightarrow> BNode" where
  "store node pos bs = take pos node @ bs @ drop (pos + length bs) node"

text \<open>
  \<open>binary.LittleEndian.Uint16(node[pos:])\<close> and \<open>binary.LittleEndian.Uint16(node[pos:pos+2])\<close>:
  the slice expression or the decoder panics unless two bytes are there.
\<close>

definition Uint16_at :: "BNode \<Rightarrow> nat \<Rightarrow> error + u16" where
  "Uint16_at node pos =
     (if pos + 2 \<le> length node then Inr (Uint16 (drop pos node)) else Inl BoundsPanic)"

definition Uint64_at :: "BNode \<Rightarrow> nat \<Rightarrow> error + u64" where
  "Uint64_at node pos =
     (if pos + 8 \<le> length node then Inr (Uint64 (drop pos node)) else Inl BoundsPanic)"

text \<open>\<open>binary.LittleEndian.PutUint16(node[pos:], v)\<close>, writing through to the node.\<close>

definition PutUint16_at :: "BNode \<Rightarrow> nat \<Rightarrow> u16 \<Rightarrow> error + BNode" where
  "PutUint16_at node pos v =
     (if pos + 2 \<le> length node then Inr (store node pos (le16 v)) else Inl BoundsPanic)"

definition PutUint64_at :: "BNode \<Rightarrow> nat \<Rightarrow> u64 \<Rightarrow> error + BNode" where
  "PutUint64_at node pos v =
     (if pos + 8 \<le> length node then Inr (store node pos (le64 v)) else Inl BoundsPanic)"

text \<open>
  \<open>copy(node[pos:], src)\<close>: the slice expression panics when \<open>pos\<close> is beyond the length;
  \<open>copy\<close> itself never panics and copies as many bytes as fit.
\<close>

definition copy_at :: "BNode \<Rightarrow> nat \<Rightarrow> byte list \<Rightarrow> error + BNode" where
  "copy_at node pos src =
     (if pos \<le> length node then Inr (store node pos (take (length node - pos) src))
      else Inl BoundsPanic)"

text \<open>\<open>node[pos:][:n]\<close>.\<close>

definition subslice :: "BNode \<Rightarrow> nat \<Rightarrow> nat \<Rightarrow> error + byte list" where
  "subslice node pos n =
     (if pos \<le> length node \<and> n \<le> length node - pos then Inr (take n (drop pos node))
      else Inl BoundsPanic)"

text \<open>
  \<open>bytes.Compare\<close>: lexicographic comparison of two byte slices, the result being
  \<open>-1\<close>, \<open>0\<close> or \<open>1\<close>.
\<close>

fun bytes_Compare :: "byte list \<Rightarrow> byte list \<Rightarrow> int" where
  "bytes_Compare [] [] = 0"
| "bytes_Compare [] (y # ys) = - 1"
| "bytes_Compare (x # xs) [] = 1"
| "bytes_Compare (x # xs) (y # ys) =
     (if x < y then - 1 else if y < x then 1 else bytes_Compare xs ys)"

section \<open>Constants\<close>

definition HEADER :: nat where "HEADER = 4"
definition BTREE_PAGE_SIZE :: nat where "BTREE_PAGE_SIZE = 4096"
definition BTREE_MAX_KEY_SIZE :: nat where "BTREE_MAX_KEY_SIZE = 1000"
definition BTREE_MAX_VAL_SIZE :: nat where "BTREE_MAX_VAL_SIZE = 3000"

definition BNODE_NODE :: u16 where "BNODE_NODE = 1"
definition BNODE_LEAF :: u16 where "BNODE_LEAF = 2"

section \<open>Node codec\<close>

definition btype :: "BNode \<Rightarrow> error + u16" where
  "btype node = Uint16_at node 0"

definition nkeys :: "BNode \<Rightarrow> error + u16" where
  "nkeys node = Uint16_at node 2"

definition setHeader :: "BNode \<Rightarrow> u16 \<Rightarrow> u16 \<Rightarrow> error + BNode" where
  "setHeader node bt n = bindE (PutUint16_at node 0 bt) (\<lambda>node1. PutUint16_at node1 2 n)"

definition getPtr :: "BNode \<Rightarrow> u16 \<Rightarrow> error + u64" where
  "getPtr node idx =
     bindE (nkeys node) (\<lambda>n.
     bindE (Assert (idx < n) ''index less than value'') (\<lambda>_.
     Uint64_at node (unat (of_nat HEADER + 8 * idx))))"

text \<open>
  Modelled from the spec: the body of \<open>setPtr\<close> is missing in btree.go (only the signature
  is there). The spec's set-child-pointer(i, id) writes the 64-bit little-endian page id
  into slot \<open>i\<close> of the pointer table at offset 4, and index accesses assert
  \<open>i < key-count\<close>.
\<close>

definition setPtr :: "BNode \<Rightarrow> u16 \<Rightarrow> u64 \<Rightarrow> error + BNode" where
  "setPtr node idx val =
     bindE (nkeys node) (\<lambda>n.
     bindE (Assert (idx < n) ''index less than value'') (\<lambda>_.
     PutUint64_at node (unat (of_nat HEADER + 8 * idx)) val))"

text \<open>
  Modelled from the spec: btree.go gives \<open>offsetPos\<close> its assertion but no return value.
  By the spec's layout the offset table starts at \<open>4 + 8 * count\<close> and holds one 16-bit
  entry per key, \<open>offset[0]\<close> being implicit, so the entry of \<open>idx\<close> is at
  \<open>HEADER + 8 * nkeys + 2 * (idx - 1)\<close>.
\<close>

definition offsetPos :: "BNode \<Rightarrow> u16 \<Rightarrow> error + u16" where
  "offsetPos node idx =
     bindE (nkeys node) (\<lambda>n.
     bindE (Assert (1 \<le> idx \<and> idx \<le> n) ''not found offset position'') (\<lambda>_.
     Inr (of_nat HEADER + 8 * n + 2 * (idx - 1))))"

definition getOffset :: "BNode \<Rightarrow> u16 \<Rightarrow> error + u16" where
  "getOffset node idx =
     (if idx = 0 then Inr 0
      else bindE (offsetPos node idx) (\<lambda>p. Uint16_at node (unat p)))"

text \<open>
  Modelled from the spec: the body of \<open>setOffset\<close> is missing in btree.go. The spec's
  set-offset(i, value) stores the 16-bit little-endian value in the offset table entry
  of \<open>i\<close>.
\<close>

definition setOffset :: "BNode \<Rightarrow> u16 \<Rightarrow> u16 \<Rightarrow> error + BNode" where
  "setOffset node idx off =
     bindE (offsetPos node idx) (\<lambda>p. PutUint16_at node (unat p) off)"

definition kvPos :: "BNode \<Rightarrow> u16 \<Rightarrow> error + u16" where
  "kvPos node idx =
     bindE (nkeys node) (\<lambda>n.
     bindE (Assert (idx \<le> n) ''index is greater than nkeys'') (\<lambda>_.
     bindE (getOffset node idx) (\<lambda>off.
     Inr (of_nat HEADER + 8 * n + 2 * n + off))))"

definition getKey :: "BNode \<Rightarrow> u16 \<Rightarrow> error + byte list" where
  "getKey node idx =
     bindE (nkeys node) (\<lambda>n.
     bindE (Assert (idx < n) ''index is greater than nkeys'') (\<lambda>_.
     bindE (kvPos node idx) (\<lambda>pos.
     bindE (Uint16_at node (unat pos)) (\<lambda>klen.
     subslice node (unat (pos + 4)) (unat klen)))))"

text \<open>
  Modelled from the spec: the body of \<open>getVal\<close> is missing in btree.go. By the spec's
  record format (u16 key length, u16 value length, key bytes, value bytes) get-value(i)
  reads both lengths at the record's position and returns the bytes after the key.
\<close>

definition getVal :: "BNode \<Rightarrow> u16 \<Rightarrow> error + byte list" where
  "getVal node idx =
     bindE (nkeys node) (\<lambda>n.
     bindE (Assert (idx < n) ''index is greater than nkeys'') (\<lambda>_.
     bindE (kvPos node idx) (\<lambda>pos.
     bindE (Uint16_at node (unat pos)) (\<lambda>klen.
     bindE (Uint16_at node (unat (pos + 2))) (\<lambda>vlen.
     subslice node (unat (pos + 4 + klen)) (unat vlen))))))"

definition nbytes :: "BNode \<Rightarrow> error + u16" where
  "nbytes node = bindE (nkeys node) (\<lambda>n. kvPos node n)"

section \<open>Lookup\<close>

text \<open>
  The \<open>for\<close> loop of \<open>nodeLookupLE\<close>, from the loop variable \<open>i\<close> and the current
  \<open>found\<close>. The loop counts in \<open>uint16\<close>; below the key count the increment cannot
  wrap, which is what its termination rests on.
\<close>

function lookup_loop :: "BNode \<Rightarrow> byte list \<Rightarrow> u16 \<Rightarrow> u16 \<Rightarrow> u16 \<Rightarrow> error + u16" where
  "lookup_loop node key n i found =
     (if i < n then
        (case getKey node i of
           Inl e \<Rightarrow> Inl e
         | Inr k \<Rightarrow>
            (let cmp = bytes_Compare k key;
                 found' = (if cmp \<le> 0 then i else found)
             in if cmp \<ge> 0 then Inr found' else lookup_loop node key n (i + 1) found'))
      else Inr found)"
  by pat_completeness auto
termination
proof -
  have step: "unat n - unat (i + 1) < unat n - unat i" if "i < n" for i n :: u16
  proof -
    from that have lt: "unat i < unat n" by (simp add: word_less_nat_alt)
    moreover have "unat n < 65536" using unsigned_less [of n] by simp
    ultimately have "unat (i + 1) = Suc (unat i)" by (simp add: unat_word_ariths)
    with lt show ?thesis by simp
  qed
  show ?thesis
    by (relation "measure (\<lambda>(node, key, n, i, found). unat n - unat i)")
       (simp_all add: step)
qed

definition nodeLookupLE :: "BNode \<Rightarrow> byte list \<Rightarrow> error + u16" where
  "nodeLookupLE node key = bindE (nkeys node) (\<lambda>n. lookup_loop node key n 1 0)"

text \<open>
  The same loop, recording in addition the indices handed to \<open>getKey\<close>, in order. The
  record is not part of the program; it makes the places the scan visits observable.
\<close>

function lookup_scan ::
  "BNode \<Rightarrow> byte list \<Rightarrow> u16 \<Rightarrow> u16 \<Rightarrow> u16 \<Rightarrow> u16 list \<Rightarrow> error + u16 \<times> u16 list" where
  "lookup_scan node key n i found seen =
     (if i < n then
        (case getKey node i of
           Inl e \<Rightarrow> Inl e
         | Inr k \<Rightarrow>
            (let cmp = bytes_Compare k key;
                 found' = (if cmp \<le> 0 then i else found)
             in if cmp \<ge> 0 then Inr (found', seen @ [i])
                else lookup_scan node key n (i + 1) found' (seen @ [i])))
      else Inr (found, seen))"
  by pat_completeness auto
termination
proof -
  have step: "unat n - unat (i + 1) < unat n - unat i" if "i < n" for i n :: u16
  proof -
    from that have lt: "unat i < unat n" by (simp add: word_less_nat_alt)
    moreover have "unat n < 65536" using unsigned_less [of n] by simp
    ultimately have "unat (i + 1) = Suc (unat i)" by (simp add: unat_word_ariths)
    with lt show ?thesis by simp
  qed
  show ?thesis
    by (relation "measure (\<lambda>(node, key, n, i, found, seen). unat n - unat i)")
       (simp_all add: step)
qed

definition nodeLookupLE_scan :: "BNode \<Rightarrow> byte list \<Rightarrow> error + u16 \<times> u16 list" where
  "nodeLookupLE_scan node key = bindE (nkeys node) (\<lambda>n. lookup_scan node key n 1 0 [])"

text \<open>The keys of a node, in index order: \<open>getKey\<close> at every index below \<open>nkeys\<close>.\<close>

fun mapE :: "('a \<Rightarrow> error + 'b) \<Rightarrow> 'a list \<Rightarrow> error + 'b list" where
  "mapE f [] = Inr []"
| "mapE f (x # xs) = bindE (f x) (\<lambda>y. bindE (mapE f xs) (\<lambda>ys. Inr (y # ys)))"

definition keys_of :: "BNode \<Rightarrow> error + byte list list" where
  "keys_of node = bindE (nkeys node) (\<lambda>n. mapE (\<lambda>i. getKey node (of_nat i)) [0..<unat n])"

declare lookup_loop.simps [simp del] lookup_scan.simps [simp del]

section \<open>Startup check\<close>

definition node1max :: nat where
  "node1max = HEADER + 8 + 2 + 4 + BTREE_MAX_KEY_SIZE + BTREE_MAX_VAL_SIZE"

definition init :: "error + unit" where
  "init = Assert (node1max \<le> BTREE_PAGE_SIZE) ''Node is greater than defined page size''"

section \<open>Node builder\<close>

text \<open>
  The builder functions write into the buffer \<open>new\<close>, which their callers make afresh, and
  read from \<open>old\<close>: the two do not share memory. \<open>uint16(len(key))\<close> is \<open>of_nat (length key)\<close>
  at type \<open>u16\<close>, the length modulo \<open>2^16\<close>.
\<close>

definition nodeAppendKV :: "BNode \<Rightarrow> u16 \<Rightarrow> u64 \<Rightarrow> byte list \<Rightarrow> byte list \<Rightarrow> error + BNode" where
  "nodeAppendKV new idx ptr key val =
     bindE (setPtr new idx ptr) (\<lambda>new1.
     bindE (kvPos new1 idx) (\<lambda>pos.
     bindE (PutUint16_at new1 (unat (pos + 0)) (of_nat (length key))) (\<lambda>new2.
     bindE (PutUint16_at new2 (unat (pos + 2)) (of_nat (length val))) (\<lambda>new3.
     bindE (copy_at new3 (unat (pos + 4)) key) (\<lambda>new4.
     bindE (copy_at new4 (unat (pos + 4 + of_nat (length key))) val) (\<lambda>new5.
     bindE (getOffset new5 idx) (\<lambda>off.
     setOffset new5 (idx + 1) (off + 4 + of_nat (length key + length val)))))))))"

fun foldE :: "('a \<Rightarrow> 's \<Rightarrow> error + 's) \<Rightarrow> 'a list \<Rightarrow> 's \<Rightarrow> error + 's" where
  "foldE f [] s = Inr s"
| "foldE f (x # xs) s = bindE (f x s) (foldE f xs)"

text \<open>
  Modelled from the spec: the body of \<open>nodeAppendRange\<close> is missing in btree.go. The spec's
  append-range(dst, src, dstStart, srcStart, n) copies \<open>n\<close> whole records (pointer, key and
  value) from \<open>src\<close> starting at \<open>srcStart\<close> into \<open>dst\<close> starting at \<open>dstStart\<close>,
  recomputing the offset table of \<open>dst\<close> incrementally: record by record, through
  \<open>nodeAppendKV\<close>.
\<close>

definition nodeAppendRange :: "BNode \<Rightarrow> BNode \<Rightarrow> u16 \<Rightarrow> u16 \<Rightarrow> u16 \<Rightarrow> error + BNode" where
  "nodeAppendRange new old dstNew srcOld n =
     foldE (\<lambda>i new'.
        bindE (getPtr old (srcOld + of_nat i)) (\<lambda>ptr.
        bindE (getKey old (srcOld + of_nat i)) (\<lambda>key.
        bindE (getVal old (srcOld + of_nat i)) (\<lambda>val.
        nodeAppendKV new' (dstNew + of_nat i) ptr key val))))
       [0..<unat n] new"

definition leafInsert :: "BNode \<Rightarrow> BNode \<Rightarrow> u16 \<Rightarrow> byte list \<Rightarrow> byte list \<Rightarrow> error + BNode" where
  "leafInsert new old idx key val =
     bindE (nkeys old) (\<lambda>n.
     bindE (setHeader new BNODE_LEAF (n + 1)) (\<lambda>new1.
     bindE (nodeAppendRange new1 old 0 0 idx) (\<lambda>new2.
     bindE (nodeAppendKV new2 idx 0 key val) (\<lambda>new3.
     nodeAppendRange new3 old (idx + 1) idx (n - idx)))))"

text \<open>
  The tree handle. Its three callbacks are Go closures over a page store; the store is
  made explicit as a state \<open>'s\<close> that \<open>new\<close> and \<open>del\<close> return updated.
\<close>

record 's BTree =
  root :: u64
  get :: "'s \<Rightarrow> u64 \<Rightarrow> byte list"
  new :: "'s \<Rightarrow> byte list \<Rightarrow> u64 \<times> 's"
  del :: "'s \<Rightarrow> u64 \<Rightarrow> 's"

text \<open>
  The \<open>range\<close> loop of \<open>nodeReplaceKidN\<close>, at loop index \<open>i\<close>. Go evaluates the arguments
  of the call from left to right: \<open>tree.new(node)\<close> first, then \<open>node.getKey(0)\<close>.
\<close>

fun replace_kids ::
  "('s, 'x) BTree_scheme \<Rightarrow> 's \<Rightarrow> BNode \<Rightarrow> u16 \<Rightarrow> nat \<Rightarrow> BNode list \<Rightarrow> error + BNode \<times> 's" where
  "replace_kids tree st new' idx i [] = Inr (new', st)"
| "replace_kids tree st new' idx i (node # kids) =
     (case new tree st node of (ptr, st') \<Rightarrow>
        bindE (getKey node 0) (\<lambda>k.
        bindE (nodeAppendKV new' (idx + of_nat i) ptr k []) (\<lambda>new''.
        replace_kids tree st' new'' idx (Suc i) kids)))"

definition nodeReplaceKidN ::
  "('s, 'x) BTree_scheme \<Rightarrow> 's \<Rightarrow> BNode \<Rightarrow> BNode \<Rightarrow> u16 \<Rightarrow> BNode list \<Rightarrow> error + BNode \<times> 's" where
  "nodeReplaceKidN tree st new' old idx kids =
     (let inc = of_nat (length kids) in
      bindE (nkeys old) (\<lambda>n.
      bindE (setHeader new' BNODE_NODE (n + inc - 1)) (\<lambda>new1.
      bindE (nodeAppendRange new1 old 0 0 idx) (\<lambda>new2.
      bindE (replace_kids tree st new2 idx 0 kids) (\<lambda>(new3, st').
      bindE (nodeAppendRange new3 old (idx + inc) (idx + 1) (n - (idx + 1))) (\<lambda>new4.
      Inr (new4, st')))))))"

section \<open>Split engine\<close>

text \<open>\<open>nodeSplit2\<close> has an empty body in btree.go: it leaves all three buffers as they are.\<close>

definition nodeSplit2 :: "BNode \<Rightarrow> BNode \<Rightarrow> BNode \<Rightarrow> BNode \<times> BNode" where
  "nodeSplit2 left right old = (left, right)"

text \<open>
  \<open>node[:n]\<close>. A node being the list of its bytes, the part keeps no capacity beyond \<open>n\<close>:
  Go would let a later slice expression on the part reach the bytes up to the capacity of
  the buffer, where the model has a fault.
\<close>

definition reslice :: "BNode \<Rightarrow> nat \<Rightarrow> error + BNode" where
  "reslice node n = (if n \<le> length node then Inr (take n node) else Inl BoundsPanic)"

text \<open>
  The result \<open>(uint16, [3]BNode)\<close> is a pair of the count and the list of the three array
  entries, \<open>nil\<close> being the empty list.
\<close>

definition nodeSplit3 :: "BNode \<Rightarrow> error + u16 \<times> BNode list" where
  "nodeSplit3 old =
     bindE (nbytes old) (\<lambda>nb.
     if unat nb \<le> BTREE_PAGE_SIZE then
       bindE (reslice old BTREE_PAGE_SIZE) (\<lambda>old'. Inr (1, [old', [], []]))
     else
       (case nodeSplit2 (replicate (2 * BTREE_PAGE_SIZE) 0) (replicate BTREE_PAGE_SIZE 0) old of
          (left, right) \<Rightarrow>
            bindE (nbytes left) (\<lambda>lb.
            if unat lb \<le> BTREE_PAGE_SIZE then
              bindE (reslice left BTREE_PAGE_SIZE) (\<lambda>left'. Inr (2, [left', right, []]))
            else
              (case nodeSplit2 (replicate BTREE_PAGE_SIZE 0) (replicate BTREE_PAGE_SIZE 0) left of
                 (leftleft, middle) \<Rightarrow>
                   bindE (nbytes leftleft) (\<lambda>llb.
                   bindE (Assert (unat llb \<le> BTREE_PAGE_SIZE)
                            ''left node less than the defined page size'') (\<lambda>_.
                   Inr (3, [leftleft, middle, right])))))))"

section \<open>Records of a node\<close>

text \<open>
  What the accessors read at an index: the pointer, the key and the value. \<open>records\<close> is
  the sequence of them over all indices below \<open>nkeys\<close>; \<open>rsize\<close> is the number of bytes a
  record takes in the record area (two length fields, key, value) and \<open>total\<close> the sum
  over a list of records.
\<close>

type_synonym rec = "u64 \<times> byte list \<times> byte list"

definition record_at :: "BNode \<Rightarrow> u16 \<Rightarrow> error + rec" where
  "record_at node idx =
     bindE (getPtr node idx) (\<lambda>p.
     bindE (getKey node idx) (\<lambda>k.
     bindE (getVal node idx) (\<lambda>v. Inr (p, k, v))))"

definition records :: "BNode \<Rightarrow> error + rec list" where
  "records node = bindE (nkeys node) (\<lambda>n. mapE (\<lambda>i. record_at node (of_nat i)) [0..<unat n])"

fun rsize :: "rec \<Rightarrow> nat" where
  "rsize (p, k, v) = 4 + length k + length v"

definition total :: "rec list \<Rightarrow> nat" where
  "total rs = sum_list (map rsize rs)"

section \<open>Routing records, as the specification words them\<close>

text \<open>
  One routing record per replacement child, in order: the pointer is the page id that
  \<open>tree.new\<close> returns for the child (the store being threaded from child to child), the
  key is the child's first key \<open>getKey(0)\<close>, the value is empty. This follows the wording
  of the specification and is what \<open>nodeReplaceKidN\<close> is compared with.
\<close>

fun routing_records ::
  "('s, 'x) BTree_scheme \<Rightarrow> 's \<Rightarrow> BNode list \<Rightarrow> error + rec list \<times> 's" where
  "routing_records tree st [] = Inr ([], st)"
| "routing_records tree st (node # kids) =
     (case new tree st node of (ptr, st') \<Rightarrow>
        bindE (getKey node 0) (\<lambda>k.
        bindE (routing_records tree st' kids) (\<lambda>(rs, st'').
        Inr ((ptr, k, []) # rs, st''))))"

section \<open>The layout of a partly built node\<close>

text \<open>
  The invariant of the builder, used in the proofs: a node whose header carries kind
  \<open>bt\<close> and key count \<open>n\<close> and into which the records \<open>rs\<close> have been appended at the
  indices \<open>0 ..< length rs\<close>. \<open>slice node p l\<close> is the byte range \<open>node[p : p + l]\<close>,
  \<open>enc_rec\<close> the byte image of one record.
\<close>

definition slice :: "byte list \<Rightarrow> nat \<Rightarrow> nat \<Rightarrow> byte list" where
  "slice node p l = take l (drop p node)"

fun enc_rec :: "rec \<Rightarrow> byte list" where
  "enc_rec (p, k, v) = le16 (of_nat (length k)) @ le16 (of_nat (length v)) @ k @ v"

definition lay :: "BNode \<Rightarrow> u16 \<Rightarrow> u16 \<Rightarrow> rec list \<Rightarrow> bool" where
  "lay node bt n rs \<longleftrightarrow>
     4 \<le> length node \<and> slice node 0 2 = le16 bt \<and> slice node 2 2 = le16 n \<and>
     length rs \<le> unat n \<and>
     4 + 10 * unat n + total rs \<le> length node \<and>
     4 + 10 * unat n + total rs < 65536 \<and>
     (\<forall>i<length rs. slice node (4 + 8 * i) 8 = le64 (fst (rs ! i))) \<and>
     (\<forall>i<length rs. slice node (4 + 8 * unat n + 2 * i) 2 = le16 (of_nat (total (take (Suc i) rs)))) \<and>
     slice node (4 + 10 * unat n) (total rs) = concat (map enc_rec rs)"

section \<open>Auxiliary facts\<close>

lemma unat_u16_lt: "unat (x::u16) < 65536"
  using unsigned_less [of x] by simp

lemma unat_succ_lt: "(i::u16) < n \<Longrightarrow> unat (i + 1) = Suc (unat i)"
proof -
  assume "i < n"
  then have "unat i < unat n" by (simp add: word_less_nat_alt)
  moreover have "unat n < 65536" by (rule unat_u16_lt)
  ultimately have "unat i + 1 < 65536" by simp
  then show ?thesis by (simp add: unat_word_ariths)
qed

lemma cmp_lt: "bytes_Compare a b < 0 \<longleftrightarrow> a < b"
  by (induction a b rule: bytes_Compare.induct) auto
lemma cmp_eq: "bytes_Compare a b = 0 \<longleftrightarrow> a = b"
  by (induction a b rule: bytes_Compare.induct) auto
lemma cmp_gt: "bytes_Compare a b > 0 \<longleftrightarrow> b < a"
  by (induction a b rule: bytes_Compare.induct) auto
lemma cmp_le: "bytes_Compare a b \<le> 0 \<longleftrightarrow> a \<le> b"
  using cmp_gt [of a b] by auto
lemma cmp_ge: "bytes_Compare a b \<ge> 0 \<longleftrightarrow> b \<le> a"
  using cmp_lt [of a b] by auto

lemma bindE_Inr_iff: "bindE m f = Inr y \<longleftrightarrow> (\<exists>x. m = Inr x \<and> f x = Inr y)"
  by (cases m) (simp_all add: bindE_def)

lemma bindE_Inr [simp]: "bindE (Inr x) f = f x"
  by (simp add: bindE_def)
lemma bindE_Inl [simp]: "bindE (Inl e) f = Inl e"
  by (simp add: bindE_def)

lemma mapE_Inr_iff:
  "mapE f xs = Inr ys \<longleftrightarrow> length ys = length xs \<and> (\<forall>i<length xs. f (xs ! i) = Inr (ys ! i))"
proof (induction xs arbitrary: ys)
  case Nil
  then show ?case by auto
next
  case (Cons x xs)
  show ?case
  proof (cases ys)
    case Nil
    then show ?thesis by (auto simp: bindE_Inr_iff)
  next
    case (Cons y ys')
    then show ?thesis
      by (auto simp: bindE_Inr_iff Cons.IH nth_Cons split: nat.splits)
  qed
qed


lemma lookup_loop_scan:
  "lookup_loop node key n i found = map_sum id fst (lookup_scan node key n i found seen)"
proof (induction node key n i found seen rule: lookup_scan.induct)
  case (1 node key n i found seen)
  show ?case
  proof (cases "i < n")
    case False
    then show ?thesis
      by (simp add: lookup_loop.simps [of node key n i] lookup_scan.simps [of node key n i])
  next
    case True
    show ?thesis
    proof (cases "getKey node i")
      case (Inl e)
      with True show ?thesis
        by (simp add: lookup_loop.simps [of node key n i] lookup_scan.simps [of node key n i])
    next
      case (Inr k)
      show ?thesis
      proof (cases "0 \<le> bytes_Compare k key")
        case ge: True
        with True Inr show ?thesis
          by (simp add: lookup_loop.simps [of node key n i] lookup_scan.simps [of node key n i])
      next
        case lt: False
        with True Inr "1.IH" [OF True Inr refl refl lt] show ?thesis
          by (simp add: lookup_loop.simps [of node key n i] lookup_scan.simps [of node key n i])
      qed
    qed
  qed
qed

lemma lookup_scan_correct:
  "\<lbrakk> \<forall>j. unat i \<le> j \<and> j < unat n \<longrightarrow> getKey node (of_nat j) = Inr (ks ! j);
     length ks = unat n; sorted_wrt (<) ks; 1 \<le> unat i; unat i \<le> unat n \<or> unat i = 1;
     \<forall>j. 0 < j \<and> j < unat i \<longrightarrow> ks ! j < key;
     unat found + 1 = unat i; \<forall>s\<in>set seen. unat s < unat i \<rbrakk>
   \<Longrightarrow> \<exists>r seen'. lookup_scan node key n i found seen = Inr (r, seen') \<and>
         (unat r = 0 \<or> (unat r < length ks \<and> ks ! unat r \<le> key)) \<and>
         (\<forall>j<length ks. ks ! j \<le> key \<longrightarrow> j \<le> unat r) \<and>
         (\<forall>j. 0 < j \<and> j < length ks \<and> key < ks ! j \<longrightarrow> (\<forall>s\<in>set seen'. unat s \<le> j))"
proof (induction node key n i found seen rule: lookup_scan.induct)
  case (1 node key n i found seen)
  note keys = "1.prems"(1) and len = "1.prems"(2) and srt = "1.prems"(3)
    and i1 = "1.prems"(4) and bnd = "1.prems"(5) and prev = "1.prems"(6)
    and fnd = "1.prems"(7) and sn = "1.prems"(8)
  show ?case
  proof (cases "i < n")
    case False
    then have ge: "unat n \<le> unat i" by (simp add: word_less_nat_alt)
    have res: "lookup_scan node key n i found seen = Inr (found, seen)"
      using False by (simp add: lookup_scan.simps [of node key n i])
    have c1: "unat found = 0 \<or> (unat found < length ks \<and> ks ! unat found \<le> key)"
    proof (cases "unat found = 0")
      case True then show ?thesis by simp
    next
      case nz: False
      with fnd have "0 < unat found" "unat found < unat i" by simp_all
      with prev have "ks ! unat found < key" by blast
      moreover from nz fnd bnd have "unat found < unat n" by auto
      ultimately show ?thesis using len by (simp add: less_imp_le)
    qed
    have c2: "\<forall>j<length ks. ks ! j \<le> key \<longrightarrow> j \<le> unat found"
      using ge fnd len by auto
    have c3: "\<forall>j. 0 < j \<and> j < length ks \<and> key < ks ! j \<longrightarrow> (\<forall>s\<in>set seen. unat s \<le> j)"
    proof (intro allI impI ballI)
      fix j s assume j: "0 < j \<and> j < length ks \<and> key < ks ! j" and s: "s \<in> set seen"
      have "\<not> j < unat i"
      proof
        assume "j < unat i"
        with j prev have "ks ! j < key" by simp
        with j show False by (blast dest: order_less_asym)
      qed
      moreover from sn s have "unat s < unat i" by simp
      ultimately show "unat s \<le> j" by simp
    qed
    from res c1 c2 c3 show ?thesis by blast
  next
    case True
    then have lt: "unat i < unat n" by (simp add: word_less_nat_alt)
    have "getKey node (of_nat (unat i)) = Inr (ks ! unat i)"
      using keys lt by blast
    then have gk: "getKey node i = Inr (ks ! unat i)" by simp
    have after: "unat i \<le> j" if "0 < j" "key < ks ! j" for j
    proof (rule ccontr)
      assume "\<not> unat i \<le> j"
      with that prev have "ks ! j < key" by simp
      with that show False by (blast dest: order_less_asym)
    qed
    have c3: "\<forall>j. 0 < j \<and> j < length ks \<and> key < ks ! j \<longrightarrow> (\<forall>s\<in>set (seen @ [i]). unat s \<le> j)"
    proof (intro allI impI ballI)
      fix j s assume j: "0 < j \<and> j < length ks \<and> key < ks ! j" and s: "s \<in> set (seen @ [i])"
      from j have ij: "unat i \<le> j" using after by blast
      from s have "s \<in> set seen \<or> s = i" by auto
      then have "unat s \<le> unat i" using sn by (auto simp: less_imp_le)
      with ij show "unat s \<le> j" by simp
    qed
    show ?thesis
    proof (cases "0 \<le> bytes_Compare (ks ! unat i) key")
      case ge: True
      then have kle: "key \<le> ks ! unat i" by (simp add: cmp_ge)
      show ?thesis
      proof (cases "bytes_Compare (ks ! unat i) key \<le> 0")
        case eq: True
        with kle have keq: "ks ! unat i = key" by (simp add: cmp_le)
        have res: "lookup_scan node key n i found seen = Inr (i, seen @ [i])"
          using True gk ge eq by (simp add: lookup_scan.simps [of node key n i])
        have c2: "\<forall>j<length ks. ks ! j \<le> key \<longrightarrow> j \<le> unat i"
        proof (intro allI impI)
          fix j assume j: "j < length ks" and le: "ks ! j \<le> key"
          show "j \<le> unat i"
          proof (rule ccontr)
            assume "\<not> j \<le> unat i"
            then have "unat i < j" by simp
            with srt j have "ks ! unat i < ks ! j" by (simp add: sorted_wrt_nth_less)
            with keq le show False by (simp add: not_less [symmetric])
          qed
        qed
        have c1: "unat i = 0 \<or> (unat i < length ks \<and> ks ! unat i \<le> key)"
          using keq lt len by simp
        from res c1 c2 c3 show ?thesis by blast
      next
        case gt: False
        then have kgt: "key < ks ! unat i" by (simp add: cmp_le)
        have res: "lookup_scan node key n i found seen = Inr (found, seen @ [i])"
          using True gk ge gt by (simp add: lookup_scan.simps [of node key n i])
        have c1: "unat found = 0 \<or> (unat found < length ks \<and> ks ! unat found \<le> key)"
        proof (cases "unat found = 0")
          case True then show ?thesis by simp
        next
          case nz: False
          with fnd have "0 < unat found" "unat found < unat i" by simp_all
          with prev have "ks ! unat found < key" by blast
          moreover from fnd lt have "unat found < unat n" by simp
          ultimately show ?thesis using len by (simp add: less_imp_le)
        qed
        have c2: "\<forall>j<length ks. ks ! j \<le> key \<longrightarrow> j \<le> unat found"
        proof (intro allI impI)
          fix j assume j: "j < length ks" and le: "ks ! j \<le> key"
          show "j \<le> unat found"
          proof (rule ccontr)
            assume "\<not> j \<le> unat found"
            with fnd have "unat i \<le> j" by simp
            then have "unat i = j \<or> unat i < j" by auto
            then have "ks ! unat i \<le> ks ! j"
              using srt j sorted_wrt_nth_less [of "(<)" ks "unat i" j] by auto
            with kgt le show False by (metis order_less_le_trans order_le_less_trans less_irrefl)
          qed
        qed
        from res c1 c2 c3 show ?thesis by blast
      qed
    next
      case lt0: False
      then have klt: "ks ! unat i < key" by (simp add: cmp_ge)
      then have le0: "bytes_Compare (ks ! unat i) key \<le> 0" by (simp add: cmp_le)
      have su: "unat (i + 1) = Suc (unat i)" using True by (rule unat_succ_lt)
      have res: "lookup_scan node key n i found seen = lookup_scan node key n (i + 1) i (seen @ [i])"
        using True gk lt0 le0 by (simp add: lookup_scan.simps [of node key n i])
      have p1: "\<forall>j. unat (i + 1) \<le> j \<and> j < unat n \<longrightarrow> getKey node (of_nat j) = Inr (ks ! j)"
        using keys su by simp
      have p6: "\<forall>j. 0 < j \<and> j < unat (i + 1) \<longrightarrow> ks ! j < key"
        using prev klt su by (auto simp: less_Suc_eq)
      have p8: "\<forall>s\<in>set (seen @ [i]). unat s < unat (i + 1)"
        using sn su by auto
      have "\<exists>r seen'. lookup_scan node key n (i + 1) (if bytes_Compare (ks ! unat i) key \<le> 0 then i else found) (seen @ [i]) = Inr (r, seen') \<and>
         (unat r = 0 \<or> (unat r < length ks \<and> ks ! unat r \<le> key)) \<and>
         (\<forall>j<length ks. ks ! j \<le> key \<longrightarrow> j \<le> unat r) \<and>
         (\<forall>j. 0 < j \<and> j < length ks \<and> key < ks ! j \<longrightarrow> (\<forall>s\<in>set seen'. unat s \<le> j))"
      proof (rule "1.IH" [OF True gk refl refl lt0 _ len srt])
        show "\<forall>j. unat (i + 1) \<le> j \<and> j < unat n \<longrightarrow> getKey node (word_of_nat j) = Inr (ks ! j)" by (rule p1)
        show "1 \<le> unat (i + 1)" using su by simp
        show "unat (i + 1) \<le> unat n \<or> unat (i + 1) = 1" using su lt by simp
        show "\<forall>j. 0 < j \<and> j < unat (i + 1) \<longrightarrow> ks ! j < key" by (rule p6)
        show "unat (if bytes_Compare (ks ! unat i) key \<le> 0 then i else found) + 1 = unat (i + 1)"
          using le0 su by simp
        show "\<forall>s\<in>set (seen @ [i]). unat s < unat (i + 1)" by (rule p8)
      qed
      then show ?thesis unfolding res using le0 by simp
    qed
  qed
qed

lemma length_store: "p + length bs \<le> length node \<Longrightarrow> length (store node p bs) = length node"
  by (simp add: store_def)

lemma slice_store_same:
  "p + length bs \<le> length node \<Longrightarrow> slice (store node p bs) p (length bs) = bs"
  by (simp add: store_def slice_def)

lemma slice_store_before:
  "q + l \<le> p \<Longrightarrow> p \<le> length node \<Longrightarrow> slice (store node p bs) q l = slice node q l"
  by (simp add: store_def slice_def take_drop)

lemma slice_store_after:
  "p + length bs \<le> q \<Longrightarrow> p + length bs \<le> length node
   \<Longrightarrow> slice (store node p bs) q l = slice node q l"
  by (simp add: store_def slice_def min_def)

lemma slice_add: "slice node p (a + b) = slice node p a @ slice node (p + a) b"
  by (simp add: slice_def take_add add.commute)

lemma length_slice: "p + l \<le> length node \<Longrightarrow> length (slice node p l) = l"
  by (simp add: slice_def)

lemma store_store_adjacent:
  assumes "p + length a + length b \<le> length node"
  shows "store (store node p a) (p + length a) b = store node p (a @ b)"
proof -
  have 1: "p \<le> length node" using assms by simp
  have 2: "length (take p node) = p" using 1 by simp
  have 3: "take (p + length a) (take p node @ a @ drop (p + length a) node) = take p node @ a"
    using 2 by (simp del: length_take)
  have 4: "drop (p + length a + length b) (take p node @ a @ drop (p + length a) node)
      = drop (p + length a + length b) node"
    using 2 by (simp del: length_take add: ac_simps)
  show ?thesis
    unfolding store_def using 3 4 by (simp add: ac_simps)
qed

lemma Uint16_le16: "Uint16 (le16 v) = v"
  unfolding Uint16_def le16_def
  by (rule bit_word_eqI) (auto simp: bit_simps)

lemma Uint64_le64: "Uint64 (le64 v) = v"
proof (rule bit_word_eqI)
  fix n assume n: "n < LENGTH(64)"
  have cases: "n < 8 \<or> (8 \<le> n \<and> n < 16) \<or> (16 \<le> n \<and> n < 24) \<or> (24 \<le> n \<and> n < 32)
     \<or> (32 \<le> n \<and> n < 40) \<or> (40 \<le> n \<and> n < 48) \<or> (48 \<le> n \<and> n < 56) \<or> (56 \<le> n \<and> n < 64)"
    using n by (simp; arith)
  then show "bit (Uint64 (le64 v)) n = bit v n"
    unfolding Uint64_def le64_def
    by (elim disjE) (auto simp add: bit_simps)
qed

lemma Uint16_drop: "p + 2 \<le> length node \<Longrightarrow> Uint16 (drop p node) = Uint16 (slice node p 2)"
  by (simp add: Uint16_def slice_def)

lemma Uint64_drop: "p + 8 \<le> length node \<Longrightarrow> Uint64 (drop p node) = Uint64 (slice node p 8)"
  by (simp add: Uint64_def slice_def)

lemma length_le16 [simp]: "length (le16 v) = 2" by (simp add: le16_def)
lemma length_le64 [simp]: "length (le64 v) = 8" by (simp add: le64_def)

lemma u16_nat: "x < 65536 \<Longrightarrow> unat (of_nat x :: u16) = x"
  by (simp add: unat_of_nat)

lemma length_enc_rec: "length (enc_rec r) = rsize r"
  by (cases r) simp

declare enc_rec.simps [simp del]

lemma length_concat_enc: "length (concat (map enc_rec rs)) = total rs"
  by (induction rs) (simp_all add: total_def length_enc_rec)

lemma total_append: "total (xs @ ys) = total xs + total ys"
  by (simp add: total_def)

lemma total_take_le: "total (take i rs) \<le> total rs"
proof -
  have "total rs = total (take i rs) + total (drop i rs)"
    by (metis append_take_drop_id total_append)
  then show ?thesis by simp
qed

lemma total_take_Suc: "i < length rs \<Longrightarrow> total (take (Suc i) rs) = total (take i rs) + rsize (rs ! i)"
  by (simp add: take_Suc_conv_app_nth total_append) (simp add: total_def)

lemma slice_append_eq:
  assumes "slice node p (length a + length b) = a @ b" and "p + length a + length b \<le> length node"
  shows "slice node p (length a) = a \<and> slice node (p + length a) (length b) = b"
proof -
  have "length (slice node p (length a)) = length a"
    using assms(2) by (simp add: length_slice)
  with assms(1) show ?thesis by (simp add: slice_add)
qed

lemma slice_record:
  assumes "slice node base (total rs) = concat (map enc_rec rs)"
    and "base + total rs \<le> length node" and "i < length rs"
  shows "slice node (base + total (take i rs)) (rsize (rs ! i)) = enc_rec (rs ! i)"
proof -
  have split: "rs = take i rs @ rs ! i # drop (Suc i) rs"
    using assms(3) by (simp add: id_take_nth_drop)
  let ?a = "concat (map enc_rec (take i rs))"
  let ?b = "enc_rec (rs ! i)"
  let ?c = "concat (map enc_rec (drop (Suc i) rs))"
  have cc: "concat (map enc_rec rs) = ?a @ (?b @ ?c)"
    by (subst split) simp
  have tt: "total rs = length ?a + (length ?b + length ?c)"
    by (subst split) (simp add: total_append length_concat_enc length_enc_rec total_def)
  have 1: "slice node base (length ?a + length (?b @ ?c)) = ?a @ (?b @ ?c)"
    using assms(1) cc tt by simp
  have 2: "slice node (base + length ?a) (length (?b @ ?c)) = ?b @ ?c"
    using slice_append_eq [OF 1] assms(2) tt by simp
  then have 3: "slice node (base + length ?a) (length ?b + length ?c) = ?b @ ?c" by simp
  have "slice node (base + length ?a) (length ?b) = ?b"
    using slice_append_eq [OF 3] assms(2) tt by simp
  then show ?thesis by (simp add: length_concat_enc length_enc_rec)
qed

lemma Uint16_at_slice:
  "p + 2 \<le> length node \<Longrightarrow> slice node p 2 = le16 v \<Longrightarrow> Uint16_at node p = Inr v"
  by (simp add: Uint16_at_def Uint16_drop Uint16_le16)

lemma Uint64_at_slice:
  "p + 8 \<le> length node \<Longrightarrow> slice node p 8 = le64 v \<Longrightarrow> Uint64_at node p = Inr v"
  by (simp add: Uint64_at_def Uint64_drop Uint64_le64)

lemma lay_nkeys: "lay node bt n rs \<Longrightarrow> nkeys node = Inr n"
  by (simp add: lay_def nkeys_def Uint16_at_slice)

lemma lay_idx_lt:
  assumes "lay node bt n rs" and "i < length rs"
  shows "(of_nat i :: u16) < n" and "unat (of_nat i :: u16) = i"
proof -
  from assms have "i < unat n" by (simp add: lay_def)
  moreover have "unat n < 65536" by (rule unat_u16_lt)
  ultimately show u: "unat (of_nat i :: u16) = i" by (simp add: u16_nat)
  with \<open>i < unat n\<close> show "(of_nat i :: u16) < n" by (simp add: word_less_nat_alt)
qed

lemma lay_getPtr:
  assumes l: "lay node bt n rs" and i: "i < length rs"
  shows "getPtr node (of_nat i) = Inr (fst (rs ! i))"
proof -
  from l i have b: "4 + 8 * i + 8 \<le> length node" "4 + 8 * i < 65536"
    by (simp_all add: lay_def)
  have "(of_nat HEADER + 8 * of_nat i :: u16) = of_nat (4 + 8 * i)"
    by (simp add: HEADER_def)
  then have p: "unat (of_nat HEADER + 8 * of_nat i :: u16) = 4 + 8 * i"
    using b by (simp only: u16_nat)
  from l i have s: "slice node (4 + 8 * i) 8 = le64 (fst (rs ! i))"
    by (simp add: lay_def)
  show ?thesis
    using lay_nkeys [OF l] lay_idx_lt(1) [OF l i] b
    by (simp add: getPtr_def Assert_def p Uint64_at_slice [OF _ s])
qed

lemma lay_getOffset:
  assumes l: "lay node bt n rs" and i: "i \<le> length rs"
  shows "getOffset node (of_nat i) = Inr (of_nat (total (take i rs)))"
proof (cases i)
  case 0
  then show ?thesis by (simp add: getOffset_def total_def)
next
  case (Suc j)
  with i have j: "j < length rs" by simp
  from l have N: "length rs \<le> unat n" "4 + 10 * unat n + total rs \<le> length node"
    "4 + 10 * unat n + total rs < 65536"
    by (simp_all add: lay_def)
  have n16: "unat n < 65536" by (rule unat_u16_lt)
  have "i < 65536" using Suc j N n16 by simp
  then have ui: "unat (of_nat i :: u16) = i" by (rule u16_nat)
  then have nz: "(of_nat i :: u16) \<noteq> 0" using Suc by (metis nat.distinct(1) unat_0)
  have ge1: "(1::u16) \<le> of_nat i" using ui Suc by (simp add: word_le_nat_alt)
  have len: "(of_nat i :: u16) \<le> n" using ui i N by (simp add: word_le_nat_alt)
  have "(of_nat HEADER + 8 * n + 2 * (of_nat i - 1) :: u16) = of_nat (4 + 8 * unat n + 2 * j)"
    using Suc by (simp add: HEADER_def)
  moreover have "4 + 8 * unat n + 2 * j < 65536" using j N by simp
  ultimately have p: "unat (of_nat HEADER + 8 * n + 2 * (of_nat i - 1) :: u16) = 4 + 8 * unat n + 2 * j"
    by (simp only: u16_nat)
  from l j have s: "slice node (4 + 8 * unat n + 2 * j) 2 = le16 (of_nat (total (take i rs)))"
    unfolding Suc by (simp add: lay_def)
  have b: "4 + 8 * unat n + 2 * j + 2 \<le> length node" using j N by simp
  have op: "offsetPos node (of_nat i) = Inr (of_nat HEADER + 8 * n + 2 * (of_nat i - 1))"
    using lay_nkeys [OF l] ge1 len by (simp add: offsetPos_def Assert_def)
  have "getOffset node (of_nat i) = bindE (offsetPos node (of_nat i)) (\<lambda>p. Uint16_at node (unat p))"
    using nz by (simp add: getOffset_def)
  also have "\<dots> = Uint16_at node (unat (of_nat HEADER + 8 * n + 2 * (of_nat i - 1) :: u16))"
    by (simp only: op bindE_Inr)
  also have "\<dots> = Uint16_at node (4 + 8 * unat n + 2 * j)"
    by (simp only: p)
  also have "\<dots> = Inr (of_nat (total (take i rs)))"
    by (rule Uint16_at_slice [OF b s])
  finally show ?thesis .
qed

lemma lay_kvPos:
  assumes l: "lay node bt n rs" and i: "i \<le> length rs"
  shows "kvPos node (of_nat i) = Inr (of_nat (4 + 10 * unat n + total (take i rs)))"
proof -
  from l have N: "length rs \<le> unat n" by (simp add: lay_def)
  have n16: "unat n < 65536" by (rule unat_u16_lt)
  have "i < 65536" using i N n16 by simp
  then have ui: "unat (of_nat i :: u16) = i" by (rule u16_nat)
  have len: "(of_nat i :: u16) \<le> n" using ui i N by (simp add: word_le_nat_alt)
  show ?thesis
    using lay_nkeys [OF l] len lay_getOffset [OF l i]
    by (simp add: kvPos_def Assert_def HEADER_def)
qed

lemma enc_slices:
  assumes s: "slice node P (rsize (p, k, v)) = enc_rec (p, k, v)"
    and b: "P + rsize (p, k, v) \<le> length node"
  shows "slice node P 2 = le16 (of_nat (length k))"
    and "slice node (P + 2) 2 = le16 (of_nat (length v))"
    and "slice node (P + 4) (length k) = k"
    and "slice node (P + 4 + length k) (length v) = v"
proof -
  let ?a = "le16 (of_nat (length k) :: u16)"
  let ?b = "le16 (of_nat (length v) :: u16)"
  have e1: "length ?a + length (?b @ k @ v) = rsize (p, k, v)" by simp
  have 1: "slice node P (length ?a + length (?b @ k @ v)) = ?a @ (?b @ k @ v)"
    unfolding e1 by (simp only: s enc_rec.simps)
  have b1: "P + length ?a + length (?b @ k @ v) \<le> length node" using b by simp
  from slice_append_eq [OF 1 b1]
  have a: "slice node P 2 = ?a" and s2: "slice node (P + 2) (length (?b @ k @ v)) = ?b @ (k @ v)"
    by simp_all
  have e2: "length ?b + length (k @ v) = length (?b @ k @ v)" by simp
  have 2: "slice node (P + 2) (length ?b + length (k @ v)) = ?b @ (k @ v)"
    unfolding e2 by (rule s2)
  have b2: "P + 2 + length ?b + length (k @ v) \<le> length node" using b by simp
  from slice_append_eq [OF 2 b2]
  have bb: "slice node (P + 2) 2 = ?b" and s3: "slice node (P + 2 + 2) (length (k @ v)) = k @ v"
    by simp_all
  have p4: "P + 2 + 2 = P + 4" by simp
  have 3: "slice node (P + 4) (length k + length v) = k @ v"
    using s3 unfolding p4 by simp
  have b3: "P + 4 + length k + length v \<le> length node" using b by simp
  from slice_append_eq [OF 3 b3]
  have c: "slice node (P + 4) (length k) = k" and d: "slice node (P + 4 + length k) (length v) = v"
    by simp_all
  show "slice node P 2 = le16 (of_nat (length k))" by (rule a)
  show "slice node (P + 2) 2 = le16 (of_nat (length v))" by (rule bb)
  show "slice node (P + 4) (length k) = k" by (rule c)
  show "slice node (P + 4 + length k) (length v) = v" by (rule d)
qed

lemma lay_rec_bounds:
  assumes l: "lay node bt n rs" and i: "i < length rs"
  shows "4 + 10 * unat n + total (take i rs) + rsize (rs ! i) \<le> length node"
    and "4 + 10 * unat n + total (take i rs) + rsize (rs ! i) < 65536"
    and "slice node (4 + 10 * unat n + total (take i rs)) (rsize (rs ! i)) = enc_rec (rs ! i)"
proof -
  from l have N: "4 + 10 * unat n + total rs \<le> length node" "4 + 10 * unat n + total rs < 65536"
    and c: "slice node (4 + 10 * unat n) (total rs) = concat (map enc_rec rs)"
    by (simp_all add: lay_def)
  have "total (take i rs) + rsize (rs ! i) \<le> total rs"
    using total_take_Suc [OF i] total_take_le [of "Suc i" rs] by simp
  with N show "4 + 10 * unat n + total (take i rs) + rsize (rs ! i) \<le> length node"
    and "4 + 10 * unat n + total (take i rs) + rsize (rs ! i) < 65536"
    by simp_all
  from slice_record [OF c N(1) i]
  show "slice node (4 + 10 * unat n + total (take i rs)) (rsize (rs ! i)) = enc_rec (rs ! i)"
    by (simp add: ac_simps)
qed

lemma subslice_slice:
  "p + l \<le> length node \<Longrightarrow> subslice node p l = Inr (slice node p l)"
  by (simp add: subslice_def slice_def)

lemma lay_getKey:
  assumes l: "lay node bt n rs" and i: "i < length rs"
  shows "getKey node (of_nat i) = Inr (fst (snd (rs ! i)))"
proof -
  obtain p k v where r: "rs ! i = (p, k, v)" by (cases "rs ! i")
  define P where "P = 4 + 10 * unat n + total (take i rs)"
  from lay_rec_bounds [OF l i] r
  have b: "P + rsize (p, k, v) \<le> length node" and b16: "P + rsize (p, k, v) < 65536"
    and s: "slice node P (rsize (p, k, v)) = enc_rec (p, k, v)"
    by (simp_all add: P_def)
  note es = enc_slices [OF s b]
  have kv: "kvPos node (of_nat i) = Inr (of_nat P)"
    using lay_kvPos [OF l] i by (simp add: P_def)
  have uP: "unat (of_nat P :: u16) = P" using b16 by (intro u16_nat) simp
  have "(of_nat P + 4 :: u16) = of_nat (P + 4)" by simp
  moreover have "P + 4 < 65536" using b16 by simp
  ultimately have uP4: "unat (of_nat P + 4 :: u16) = P + 4" by (simp only: u16_nat)
  have uk: "unat (of_nat (length k) :: u16) = length k" using b16 by (intro u16_nat) simp
  have kl: "Uint16_at node P = Inr (of_nat (length k))"
    using b by (intro Uint16_at_slice es(1)) simp
  have ss: "subslice node (P + 4) (length k) = Inr k"
    using b es(3) by (simp add: subslice_slice)
  have "getKey node (of_nat i) =
      bindE (kvPos node (of_nat i)) (\<lambda>pos.
      bindE (Uint16_at node (unat pos)) (\<lambda>klen.
      subslice node (unat (pos + 4)) (unat klen)))"
    using lay_nkeys [OF l] lay_idx_lt(1) [OF l i] by (simp add: getKey_def Assert_def)
  also have "\<dots> = Inr k"
    by (simp only: kv bindE_Inr uP kl uP4 uk ss)
  finally show ?thesis by (simp add: r)
qed

lemma lay_getVal:
  assumes l: "lay node bt n rs" and i: "i < length rs"
  shows "getVal node (of_nat i) = Inr (snd (snd (rs ! i)))"
proof -
  obtain p k v where r: "rs ! i = (p, k, v)" by (cases "rs ! i")
  define P where "P = 4 + 10 * unat n + total (take i rs)"
  from lay_rec_bounds [OF l i] r
  have b: "P + rsize (p, k, v) \<le> length node" and b16: "P + rsize (p, k, v) < 65536"
    and s: "slice node P (rsize (p, k, v)) = enc_rec (p, k, v)"
    by (simp_all add: P_def)
  note es = enc_slices [OF s b]
  have kv: "kvPos node (of_nat i) = Inr (of_nat P)"
    using lay_kvPos [OF l] i by (simp add: P_def)
  have uP: "unat (of_nat P :: u16) = P" using b16 by (intro u16_nat) simp
  have "(of_nat P + 2 :: u16) = of_nat (P + 2)" by simp
  moreover have "P + 2 < 65536" using b16 by simp
  ultimately have uP2: "unat (of_nat P + 2 :: u16) = P + 2" by (simp only: u16_nat)
  have "(of_nat P + 4 + of_nat (length k) :: u16) = of_nat (P + 4 + length k)" by simp
  moreover have "P + 4 + length k < 65536" using b16 by simp
  ultimately have uP4: "unat (of_nat P + 4 + of_nat (length k) :: u16) = P + 4 + length k"
    by (simp only: u16_nat)
  have uv: "unat (of_nat (length v) :: u16) = length v" using b16 by (intro u16_nat) simp
  have kl: "Uint16_at node P = Inr (of_nat (length k))"
    using b by (intro Uint16_at_slice es(1)) simp
  have vl: "Uint16_at node (P + 2) = Inr (of_nat (length v))"
    using b by (intro Uint16_at_slice es(2)) simp
  have ss: "subslice node (P + 4 + length k) (length v) = Inr v"
    using b es(4) by (simp add: subslice_slice)
  have "getVal node (of_nat i) =
      bindE (kvPos node (of_nat i)) (\<lambda>pos.
      bindE (Uint16_at node (unat pos)) (\<lambda>klen.
      bindE (Uint16_at node (unat (pos + 2))) (\<lambda>vlen.
      subslice node (unat (pos + 4 + klen)) (unat vlen))))"
    using lay_nkeys [OF l] lay_idx_lt(1) [OF l i] by (simp add: getVal_def Assert_def)
  also have "\<dots> = Inr v"
    by (simp only: kv bindE_Inr uP kl uP2 vl uP4 uv ss)
  finally show ?thesis by (simp add: r)
qed

lemma lay_record_at:
  assumes l: "lay node bt n rs" and i: "i < length rs"
  shows "record_at node (of_nat i) = Inr (rs ! i)"
  by (simp add: record_at_def lay_getPtr [OF l i] lay_getKey [OF l i] lay_getVal [OF l i])

lemma lay_records:
  assumes l: "lay node bt n rs" and full: "length rs = unat n"
  shows "records node = Inr rs"
  using lay_nkeys [OF l] full lay_record_at [OF l]
  by (simp add: records_def mapE_Inr_iff)

lemma lay_btype: "lay node bt n rs \<Longrightarrow> btype node = Inr bt"
  by (simp add: lay_def btype_def Uint16_at_slice)

lemma lay_store:
  assumes l: "lay node bt n rs"
    and fit: "q + length bs \<le> length node"
    and c1: "4 + 8 * length rs \<le> q"
    and c2: "q + length bs \<le> 4 + 8 * unat n \<or> 4 + 8 * unat n + 2 * length rs \<le> q"
    and c3: "q + length bs \<le> 4 + 10 * unat n \<or> 4 + 10 * unat n + total rs \<le> q"
  shows "lay (store node q bs) bt n rs"
proof -
  have q: "q \<le> length node" using fit by simp
  have len: "length (store node q bs) = length node" by (rule length_store [OF fit])
  have h0: "slice (store node q bs) 0 2 = slice node 0 2"
    using c1 q by (intro slice_store_before) simp_all
  have h2: "slice (store node q bs) 2 2 = slice node 2 2"
    using c1 q by (intro slice_store_before) simp_all
  have ptr: "slice (store node q bs) (4 + 8 * i) 8 = slice node (4 + 8 * i) 8" if "i < length rs" for i
    using c1 q that by (intro slice_store_before) simp_all
  have off: "slice (store node q bs) (4 + 8 * unat n + 2 * i) 2 = slice node (4 + 8 * unat n + 2 * i) 2"
    if "i < length rs" for i
    using c2
  proof
    assume "q + length bs \<le> 4 + 8 * unat n"
    then show ?thesis using fit by (intro slice_store_after) simp_all
  next
    assume "4 + 8 * unat n + 2 * length rs \<le> q"
    then show ?thesis using q that by (intro slice_store_before) simp_all
  qed
  have recs: "slice (store node q bs) (4 + 10 * unat n) (total rs) = slice node (4 + 10 * unat n) (total rs)"
    using c3
  proof
    assume "q + length bs \<le> 4 + 10 * unat n"
    then show ?thesis using fit by (intro slice_store_after) simp_all
  next
    assume "4 + 10 * unat n + total rs \<le> q"
    then show ?thesis using q by (intro slice_store_before) simp_all
  qed
  show ?thesis
    using l unfolding lay_def len h0 h2 recs by (simp add: ptr off)
qed

lemma copy_at_fit:
  "p + length src \<le> length node \<Longrightarrow> copy_at node p src = Inr (store node p src)"
  by (simp add: copy_at_def)

lemma PutUint16_at_fit:
  "p + 2 \<le> length node \<Longrightarrow> PutUint16_at node p v = Inr (store node p (le16 v))"
  by (simp add: PutUint16_at_def)

lemma PutUint64_at_fit:
  "p + 8 \<le> length node \<Longrightarrow> PutUint64_at node p v = Inr (store node p (le64 v))"
  by (simp add: PutUint64_at_def)

lemma store_record:
  assumes "P + (4 + length k + length v) \<le> length node"
  shows "store (store (store (store node P (le16 a)) (P + 2) (le16 b)) (P + 4) k) (P + 4 + length k) v
      = store node P (le16 a @ le16 b @ k @ v)"
proof -
  have 1: "store (store node P (le16 a)) (P + 2) (le16 b) = store node P (le16 a @ le16 b)"
    using store_store_adjacent [of P "le16 a" "le16 b" node] assms by simp
  have 2: "store (store node P (le16 a @ le16 b)) (P + 4) k = store node P ((le16 a @ le16 b) @ k)"
    using store_store_adjacent [of P "le16 a @ le16 b" k node] assms by simp
  have e3: "P + length ((le16 a @ le16 b) @ k) = P + 4 + length k" by simp
  have pre: "P + length ((le16 a @ le16 b) @ k) + length v \<le> length node" using assms by simp
  have 3: "store (store node P ((le16 a @ le16 b) @ k)) (P + 4 + length k) v
      = store node P (((le16 a @ le16 b) @ k) @ v)"
    using store_store_adjacent [OF pre] by (simp only: e3)
  show ?thesis unfolding 1 2 3 by simp
qed

lemma nodeAppendKV_store:
  assumes l: "lay node bt n rs"
    and room: "length rs < unat n"
    and fit: "4 + 10 * unat n + total rs + rsize (p, k, v) \<le> length node"
    and fit16: "4 + 10 * unat n + total rs + rsize (p, k, v) < 65536"
  shows "nodeAppendKV node (of_nat (length rs)) p k v =
     Inr (store (store (store node (4 + 8 * length rs) (le64 p))
                   (4 + 10 * unat n + total rs) (enc_rec (p, k, v)))
            (4 + 8 * unat n + 2 * length rs) (le16 (of_nat (total rs + rsize (p, k, v)))))"
    (is "_ = Inr (store (store ?n1 ?P ?E) ?O ?W)")
proof -
  let ?K = "length rs"
  let ?idx = "of_nat (length rs) :: u16"
  have L: "length ?n1 = length node" using fit room by (intro length_store) simp
  have uK: "unat ?idx = ?K" using room unat_u16_lt [of n] by (intro u16_nat) simp
  have lt: "?idx < n" using uK room by (simp add: word_less_nat_alt)
  have "(of_nat HEADER + 8 * ?idx :: u16) = of_nat (4 + 8 * ?K)" by (simp add: HEADER_def)
  moreover have "4 + 8 * ?K < 65536" using room fit16 by simp
  ultimately have up: "unat (of_nat HEADER + 8 * ?idx :: u16) = 4 + 8 * ?K" by (simp only: u16_nat)
  have sp: "setPtr node ?idx p = Inr ?n1"
    using lay_nkeys [OF l] lt fit room by (simp add: setPtr_def Assert_def up PutUint64_at_fit)
  have l1: "lay ?n1 bt n rs"
    using room fit by (intro lay_store [OF l]) simp_all
  have kv: "kvPos ?n1 ?idx = Inr (of_nat ?P)"
    using lay_kvPos [OF l1, of ?K] by simp
  have P16: "?P + 4 + length k + length v < 65536" using fit16 by simp
  have PL: "?P + 4 + length k + length v \<le> length node" using fit by simp
  have "(of_nat ?P + 0 :: u16) = of_nat ?P" by simp
  moreover have "?P < 65536" using P16 by simp
  ultimately have u0: "unat (of_nat ?P + 0 :: u16) = ?P" by (simp only: u16_nat)
  have "(of_nat ?P + 2 :: u16) = of_nat (?P + 2)" by simp
  moreover have "?P + 2 < 65536" using P16 by simp
  ultimately have u2: "unat (of_nat ?P + 2 :: u16) = ?P + 2" by (simp only: u16_nat)
  have "(of_nat ?P + 4 :: u16) = of_nat (?P + 4)" by simp
  moreover have "?P + 4 < 65536" using P16 by simp
  ultimately have u4: "unat (of_nat ?P + 4 :: u16) = ?P + 4" by (simp only: u16_nat)
  have "(of_nat ?P + 4 + of_nat (length k) :: u16) = of_nat (?P + 4 + length k)" by simp
  moreover have "?P + 4 + length k < 65536" using P16 by simp
  ultimately have u4k: "unat (of_nat ?P + 4 + of_nat (length k) :: u16) = ?P + 4 + length k"
    by (simp only: u16_nat)
  let ?a = "of_nat (length k) :: u16"
  let ?b = "of_nat (length v) :: u16"
  let ?n2 = "store ?n1 ?P (le16 ?a)"
  let ?n3 = "store ?n2 (?P + 2) (le16 ?b)"
  let ?n4 = "store ?n3 (?P + 4) k"
  let ?n5 = "store ?n4 (?P + 4 + length k) v"
  have L2: "length ?n2 = length node" using PL L by (simp add: length_store)
  have L3: "length ?n3 = length node" using PL L2 by (simp add: length_store)
  have L4: "length ?n4 = length node" using PL L3 by (simp add: length_store)
  have w1: "PutUint16_at ?n1 ?P ?a = Inr ?n2" using PL L by (intro PutUint16_at_fit) simp
  have w2: "PutUint16_at ?n2 (?P + 2) ?b = Inr ?n3" using PL L2 by (intro PutUint16_at_fit) simp
  have w3: "copy_at ?n3 (?P + 4) k = Inr ?n4" using PL L3 by (intro copy_at_fit) simp
  have w4: "copy_at ?n4 (?P + 4 + length k) v = Inr ?n5" using PL L4 by (intro copy_at_fit) simp
  have n5: "?n5 = store ?n1 ?P ?E"
    using store_record [of ?P k v ?n1 ?a ?b] PL L by (simp add: enc_rec.simps)
  have lE: "length ?E = rsize (p, k, v)" by (rule length_enc_rec)
  have l5: "lay (store ?n1 ?P ?E) bt n rs"
    using room fit lE by (intro lay_store [OF l1]) (simp_all add: L)
  have L5: "length (store ?n1 ?P ?E) = length node"
    using fit lE L by (simp add: length_store)
  have go: "getOffset (store ?n1 ?P ?E) ?idx = Inr (of_nat (total rs))"
    using lay_getOffset [OF l5, of ?K] by simp
  have "(?idx + 1 :: u16) = of_nat (?K + 1)" by simp
  moreover have "?K + 1 < 65536" using room unat_u16_lt [of n] by simp
  ultimately have ui1: "unat (?idx + 1) = ?K + 1" by (simp only: u16_nat)
  have a1: "(1::u16) \<le> ?idx + 1" using ui1 by (simp add: word_le_nat_alt)
  have a2: "?idx + 1 \<le> n" using ui1 room by (simp add: word_le_nat_alt)
  have "(of_nat HEADER + 8 * n + 2 * (?idx + 1 - 1) :: u16) = of_nat ?O" by (simp add: HEADER_def)
  moreover have "?O < 65536" using room fit16 by simp
  ultimately have uo: "unat (of_nat HEADER + 8 * n + 2 * (?idx + 1 - 1) :: u16) = ?O"
    by (simp only: u16_nat)
  have op: "offsetPos (store ?n1 ?P ?E) (?idx + 1) = Inr (of_nat HEADER + 8 * n + 2 * (?idx + 1 - 1))"
    using lay_nkeys [OF l5] a1 a2 by (simp add: offsetPos_def Assert_def)
  have wv: "(of_nat (total rs) + 4 + of_nat (length k + length v) :: u16)
      = of_nat (total rs + rsize (p, k, v))" by simp
  have so: "setOffset (store ?n1 ?P ?E) (?idx + 1) (of_nat (total rs) + 4 + of_nat (length k + length v))
      = Inr (store (store ?n1 ?P ?E) ?O ?W)"
    unfolding setOffset_def op bindE_Inr uo wv
    using room fit L5 by (intro PutUint16_at_fit) simp
  show ?thesis
    unfolding nodeAppendKV_def sp bindE_Inr kv u0 w1 u2 w2 u4 w3 u4k w4 n5 go so ..
qed

lemma lay_append_stores:
  assumes l: "lay node bt n rs"
    and room: "length rs < unat n"
    and fit: "4 + 10 * unat n + total rs + rsize (p, k, v) \<le> length node"
    and fit16: "4 + 10 * unat n + total rs + rsize (p, k, v) < 65536"
  shows "lay (store (store (store node (4 + 8 * length rs) (le64 p))
                   (4 + 10 * unat n + total rs) (enc_rec (p, k, v)))
            (4 + 8 * unat n + 2 * length rs) (le16 (of_nat (total rs + rsize (p, k, v)))))
          bt n (rs @ [(p, k, v)])"
    (is "lay (store (store ?n1 ?P ?E) ?O ?W) bt n _")
proof -
  define K where "K = length rs"
  define P where "P = 4 + 10 * unat n + total rs"
  define Q where "Q = 4 + 8 * unat n + 2 * length rs"
  define E where "E = enc_rec (p, k, v)"
  define W where "W = le16 (of_nat (total rs + rsize (p, k, v)) :: u16)"
  define n1 where "n1 = store node (4 + 8 * K) (le64 p)"
  define n5 where "n5 = store n1 P E"
  define n6 where "n6 = store n5 Q W"
  have lE: "length E = rsize (p, k, v)" unfolding E_def by (rule length_enc_rec)
  have lW: "length W = 2" by (simp add: W_def)
  have KN: "K < unat n" using room by (simp add: K_def)
  have PL: "P + rsize (p, k, v) \<le> length node" using fit by (simp add: P_def)
  have L1: "length n1 = length node"
    unfolding n1_def using PL KN by (intro length_store) (simp add: P_def)
  have L5: "length n5 = length node"
    unfolding n5_def using PL lE L1 by (simp add: length_store)
  have L6: "length n6 = length node"
    unfolding n6_def using PL KN L5 lW by (simp add: length_store P_def Q_def K_def)
  have l1: "lay n1 bt n rs"
    unfolding n1_def using KN PL by (intro lay_store [OF l]) (simp_all add: K_def P_def)
  have l5: "lay n5 bt n rs"
    unfolding n5_def using KN PL lE by (intro lay_store [OF l1]) (simp_all add: L1 K_def P_def)
  have l6: "lay n6 bt n rs"
    unfolding n6_def using KN PL lW by (intro lay_store [OF l5]) (simp_all add: L5 K_def P_def Q_def)
  have ptrK: "slice n6 (4 + 8 * K) 8 = le64 p"
  proof -
    have "slice n6 (4 + 8 * K) 8 = slice n5 (4 + 8 * K) 8"
      unfolding n6_def using KN PL L5 by (intro slice_store_before) (simp_all add: Q_def K_def P_def)
    also have "\<dots> = slice n1 (4 + 8 * K) 8"
      unfolding n5_def using KN PL L1 by (intro slice_store_before) (simp_all add: P_def)
    also have "\<dots> = le64 p"
      unfolding n1_def using slice_store_same [of "4 + 8 * K" "le64 p" node] KN PL
      by (simp add: P_def)
    finally show ?thesis .
  qed
  have offK: "slice n6 Q 2 = W"
    unfolding n6_def using slice_store_same [of Q W n5] KN PL L5 lW
    by (simp add: P_def Q_def K_def)
  have recK: "slice n6 P (rsize (p, k, v)) = E"
  proof -
    have "slice n6 P (rsize (p, k, v)) = slice n5 P (rsize (p, k, v))"
      unfolding n6_def using KN PL L5 lW by (intro slice_store_after) (simp_all add: P_def Q_def K_def)
    also have "\<dots> = E"
      unfolding n5_def using slice_store_same [of P E n1] PL L1 lE by simp
    finally show ?thesis .
  qed
  have old: "4 \<le> length n6" "slice n6 0 2 = le16 bt" "slice n6 2 2 = le16 n"
    "\<forall>i<K. slice n6 (4 + 8 * i) 8 = le64 (fst (rs ! i))"
    "\<forall>i<K. slice n6 (4 + 8 * unat n + 2 * i) 2 = le16 (of_nat (total (take (Suc i) rs)))"
    "slice n6 (4 + 10 * unat n) (total rs) = concat (map enc_rec rs)"
    using l6 by (simp_all add: lay_def K_def)
  have tot: "total (rs @ [(p, k, v)]) = total rs + rsize (p, k, v)"
    by (simp add: total_def)
  have c_len: "length (rs @ [(p, k, v)]) \<le> unat n" using KN by (simp add: K_def)
  have c_fit: "4 + 10 * unat n + total (rs @ [(p, k, v)]) \<le> length n6"
    unfolding tot L6 using fit by simp
  have c_fit16: "4 + 10 * unat n + total (rs @ [(p, k, v)]) < 65536"
    unfolding tot using fit16 by simp
  have c_ptr: "\<forall>i<length (rs @ [(p, k, v)]). slice n6 (4 + 8 * i) 8 = le64 (fst ((rs @ [(p, k, v)]) ! i))"
    using old(4) ptrK by (auto simp: nth_append less_Suc_eq K_def)
  have c_off: "\<forall>i<length (rs @ [(p, k, v)]). slice n6 (4 + 8 * unat n + 2 * i) 2
       = le16 (of_nat (total (take (Suc i) (rs @ [(p, k, v)]))))"
  proof (intro allI impI)
    fix i assume "i < length (rs @ [(p, k, v)])"
    then consider "i < K" | "i = K" unfolding K_def by fastforce
    then show "slice n6 (4 + 8 * unat n + 2 * i) 2
       = le16 (of_nat (total (take (Suc i) (rs @ [(p, k, v)]))))"
    proof cases
      case 1
      then show ?thesis using old(5) by (simp add: K_def)
    next
      case 2
      have "take (Suc i) (rs @ [(p, k, v)]) = rs @ [(p, k, v)]" using 2 by (simp add: K_def)
      then show ?thesis using offK 2 unfolding W_def Q_def K_def by (simp add: tot)
    qed
  qed
  have c_rec: "slice n6 (4 + 10 * unat n) (total (rs @ [(p, k, v)])) = concat (map enc_rec (rs @ [(p, k, v)]))"
    unfolding tot slice_add old(6) using recK by (simp add: P_def E_def)
  have "lay n6 bt n (rs @ [(p, k, v)])"
    unfolding lay_def
    using old(1,2,3) c_len c_fit c_fit16 c_ptr c_off c_rec by blast
  then show ?thesis
    unfolding n6_def n5_def n1_def W_def E_def P_def Q_def K_def .
qed

lemma nodeAppendKV_lay:
  assumes l: "lay node bt n rs"
    and room: "length rs < unat n"
    and fit: "4 + 10 * unat n + total rs + rsize (p, k, v) \<le> length node"
    and fit16: "4 + 10 * unat n + total rs + rsize (p, k, v) < 65536"
  shows "\<exists>node'. nodeAppendKV node (of_nat (length rs)) p k v = Inr node'
          \<and> lay node' bt n (rs @ [(p, k, v)]) \<and> length node' = length node"
proof -
  let ?r = "store (store (store node (4 + 8 * length rs) (le64 p))
                   (4 + 10 * unat n + total rs) (enc_rec (p, k, v)))
            (4 + 8 * unat n + 2 * length rs) (le16 (of_nat (total rs + rsize (p, k, v))))"
  have "length ?r = length node"
    using room fit length_enc_rec [of "(p, k, v)"] by (simp add: length_store)
  with nodeAppendKV_store [OF l room fit fit16] lay_append_stores [OF l room fit fit16]
  show ?thesis by blast
qed

lemma setHeader_lay:
  assumes fit: "4 + 10 * unat n \<le> length nd" and fit16: "4 + 10 * unat n < 65536"
  shows "\<exists>nd'. setHeader nd bt n = Inr nd' \<and> lay nd' bt n [] \<and> length nd' = length nd"
proof -
  define n1 where "n1 = store nd 0 (le16 bt)"
  define n2 where "n2 = store n1 2 (le16 n)"
  have L1: "length n1 = length nd" unfolding n1_def using fit by (simp add: length_store)
  have L2: "length n2 = length nd" unfolding n2_def using fit L1 by (simp add: length_store)
  have w1: "PutUint16_at nd 0 bt = Inr n1"
    unfolding n1_def using fit by (intro PutUint16_at_fit) simp
  have w2: "PutUint16_at n1 2 n = Inr n2"
    unfolding n2_def using fit L1 by (intro PutUint16_at_fit) simp
  have sh: "setHeader nd bt n = Inr n2"
    unfolding setHeader_def w1 bindE_Inr w2 ..
  have "slice n2 0 2 = slice n1 0 2"
    unfolding n2_def using fit L1 by (intro slice_store_before) simp_all
  also have "\<dots> = le16 bt"
    unfolding n1_def using slice_store_same [of 0 "le16 bt" nd] fit by simp
  finally have h0: "slice n2 0 2 = le16 bt" .
  have h2: "slice n2 2 2 = le16 n"
    unfolding n2_def using slice_store_same [of 2 "le16 n" n1] fit L1 by simp
  have "lay n2 bt n []"
    unfolding lay_def using h0 h2 fit fit16 L2 by (simp add: total_def slice_def)
  with sh L2 show ?thesis by blast
qed

lemma record_at_Inr:
  "record_at node i = Inr (p, k, v)
   \<longleftrightarrow> getPtr node i = Inr p \<and> getKey node i = Inr k \<and> getVal node i = Inr v"
  by (auto simp: record_at_def bindE_Inr_iff)

lemma foldE_append_range:
  assumes src: "\<forall>i<m. record_at old (s + of_nat i) = Inr (xs ! i)"
    and len: "length xs = m"
    and cap: "length rs + m \<le> unat n"
    and fit16: "4 + 10 * unat n + total (rs @ xs) < 65536"
  shows "j \<le> m \<Longrightarrow> lay nd bt n (rs @ take j xs)
    \<Longrightarrow> 4 + 10 * unat n + total (rs @ xs) \<le> length nd
    \<Longrightarrow> \<exists>nd'. foldE (\<lambda>i new'.
            bindE (getPtr old (s + of_nat i)) (\<lambda>ptr.
            bindE (getKey old (s + of_nat i)) (\<lambda>key.
            bindE (getVal old (s + of_nat i)) (\<lambda>val.
            nodeAppendKV new' (of_nat (length rs) + of_nat i) ptr key val))))
          [j..<m] nd = Inr nd' \<and> lay nd' bt n (rs @ xs) \<and> length nd' = length nd"
proof (induction "m - j" arbitrary: j nd)
  case 0
  then have "j = m" by simp
  with 0 len show ?case by simp
next
  case (Suc d)
  then have jm: "j < m" by simp
  obtain p k v where r: "xs ! j = (p, k, v)" by (cases "xs ! j")
  from src jm r have ra: "record_at old (s + of_nat j) = Inr (p, k, v)" by simp
  then have g: "getPtr old (s + of_nat j) = Inr p" "getKey old (s + of_nat j) = Inr k"
    "getVal old (s + of_nat j) = Inr v"
    by (simp_all add: record_at_Inr)
  have tk: "take (Suc j) xs = take j xs @ [(p, k, v)]"
    using jm len r by (simp add: take_Suc_conv_app_nth)
  have "total (rs @ take (Suc j) xs) \<le> total (rs @ xs)"
    using total_take_le [of "Suc j" xs] by (simp add: total_append)
  then have tle: "total (rs @ take j xs) + rsize (p, k, v) \<le> total (rs @ xs)"
    unfolding tk by (simp add: total_append) (simp add: total_def)
  have lenj: "length (rs @ take j xs) = length rs + j" using jm len by simp
  have room: "length (rs @ take j xs) < unat n" using jm cap lenj by simp
  have f1: "4 + 10 * unat n + total (rs @ take j xs) + rsize (p, k, v) \<le> length nd"
    using tle Suc.prems(3) by linarith
  have f2: "4 + 10 * unat n + total (rs @ take j xs) + rsize (p, k, v) < 65536"
    using tle fit16 by simp
  from nodeAppendKV_lay [OF Suc.prems(2) room f1 f2]
  obtain nd1 where a: "nodeAppendKV nd (of_nat (length (rs @ take j xs))) p k v = Inr nd1"
    and l1: "lay nd1 bt n ((rs @ take j xs) @ [(p, k, v)])" and L1: "length nd1 = length nd"
    by blast
  have idx: "(of_nat (length (rs @ take j xs)) :: u16) = of_nat (length rs) + of_nat j"
    unfolding lenj by simp
  have l1': "lay nd1 bt n (rs @ take (Suc j) xs)" using l1 tk by simp
  have d: "d = m - Suc j" using Suc.hyps(2) by simp
  have fit': "4 + 10 * unat n + total (rs @ xs) \<le> length nd1" using L1 Suc.prems(3) by simp
  from Suc.hyps(1) [OF d _ l1' fit'] jm
  obtain nd' where r1: "foldE (\<lambda>i new'.
            bindE (getPtr old (s + of_nat i)) (\<lambda>ptr.
            bindE (getKey old (s + of_nat i)) (\<lambda>key.
            bindE (getVal old (s + of_nat i)) (\<lambda>val.
            nodeAppendKV new' (of_nat (length rs) + of_nat i) ptr key val))))
          [Suc j..<m] nd1 = Inr nd'" and r2: "lay nd' bt n (rs @ xs)" and r3: "length nd' = length nd1"
    by auto
  have "[j..<m] = j # [Suc j..<m]" using jm by (simp add: upt_conv_Cons)
  then show ?case
    using g a [unfolded idx] r1 r2 r3 L1 by simp
qed

lemma nodeAppendRange_lay:
  assumes l: "lay nd bt n rs"
    and dst: "dst = of_nat (length rs)"
    and src: "\<forall>i<unat cnt. record_at old (s + of_nat i) = Inr (xs ! i)"
    and len: "length xs = unat cnt"
    and cap: "length rs + unat cnt \<le> unat n"
    and fit: "4 + 10 * unat n + total (rs @ xs) \<le> length nd"
    and fit16: "4 + 10 * unat n + total (rs @ xs) < 65536"
  shows "\<exists>nd'. nodeAppendRange nd old dst s cnt = Inr nd' \<and> lay nd' bt n (rs @ xs)
          \<and> length nd' = length nd"
  unfolding nodeAppendRange_def dst
  using foldE_append_range [OF src len cap fit16, of 0 nd bt] l fit by simp

lemma records_Inr:
  assumes "records node = Inr rs"
  shows "\<exists>n. nkeys node = Inr n \<and> length rs = unat n
          \<and> (\<forall>i<unat n. record_at node (of_nat i) = Inr (rs ! i))"
  using assms by (auto simp: records_def bindE_Inr_iff mapE_Inr_iff)

lemma total_take_drop: "total (take i rs) + total (drop i rs) = total rs"
  by (metis append_take_drop_id total_append)







lemma routing_records_length:
  "routing_records tree st kids = Inr (rr, st') \<Longrightarrow> length rr = length kids"
proof (induction kids arbitrary: st rr)
  case Nil
  then show ?case by simp
next
  case (Cons node kids)
  then show ?case
    by (auto simp: bindE_Inr_iff split: prod.splits)
qed

lemma replace_kids_lay:
  assumes fit16: "4 + 10 * unat n + T < 65536"
  shows "routing_records tree st kids = Inr (rr, st') \<Longrightarrow> lay nd bt n rs
    \<Longrightarrow> idx + of_nat i = (of_nat (length rs) :: u16)
    \<Longrightarrow> length rs + length kids \<le> unat n
    \<Longrightarrow> total (rs @ rr) \<le> T
    \<Longrightarrow> 4 + 10 * unat n + T \<le> length nd
    \<Longrightarrow> \<exists>nd'. replace_kids tree st nd idx i kids = Inr (nd', st')
          \<and> lay nd' bt n (rs @ rr) \<and> length nd' = length nd"
proof (induction kids arbitrary: st nd rs i rr)
  case Nil
  then show ?case by simp
next
  case (Cons node kids)
  obtain ptr st1 where al: "new tree st node = (ptr, st1)" by (cases "new tree st node")
  from Cons.prems(1) al obtain k rr' where k: "getKey node 0 = Inr k"
    and rr': "routing_records tree st1 kids = Inr (rr', st')" and rr: "rr = (ptr, k, []) # rr'"
    by (auto simp: bindE_Inr_iff)
  have tot: "total (rs @ rr) = total rs + rsize (ptr, k, []) + total rr'"
    unfolding rr by (simp add: total_def)
  have room: "length rs < unat n" using Cons.prems(4) by simp
  have f1: "4 + 10 * unat n + total rs + rsize (ptr, k, []) \<le> length nd"
    using Cons.prems(5,6) tot by linarith
  have f2: "4 + 10 * unat n + total rs + rsize (ptr, k, []) < 65536"
    using Cons.prems(5) fit16 tot by linarith
  from nodeAppendKV_lay [OF Cons.prems(2) room f1 f2]
  obtain nd1 where a: "nodeAppendKV nd (of_nat (length rs)) ptr k [] = Inr nd1"
    and l1: "lay nd1 bt n (rs @ [(ptr, k, [])])" and L1: "length nd1 = length nd"
    by blast
  have i': "idx + of_nat (Suc i) = (of_nat (length (rs @ [(ptr, k, [])])) :: u16)"
    using Cons.prems(3) by (simp add: add.assoc [symmetric])
  have c': "length (rs @ [(ptr, k, [])]) + length kids \<le> unat n" using Cons.prems(4) by simp
  have t': "total ((rs @ [(ptr, k, [])]) @ rr') \<le> T" using Cons.prems(5) rr by simp
  have f': "4 + 10 * unat n + T \<le> length nd1" using Cons.prems(6) L1 by simp
  from Cons.IH [OF rr' l1 i' c' t' f']
  obtain nd' where r1: "replace_kids tree st1 nd1 idx (Suc i) kids = Inr (nd', st')"
    and r2: "lay nd' bt n ((rs @ [(ptr, k, [])]) @ rr')" and r3: "length nd' = length nd1"
    by blast
  have "replace_kids tree st nd idx i (node # kids) = Inr (nd', st')"
    using al k a r1 Cons.prems(3) by simp
  with r2 r3 L1 rr show ?case by simp
qed

lemma routing_records_nth:
  "routing_records tree st kids = Inr (rr, st') \<Longrightarrow> j < length kids
   \<Longrightarrow> getKey (kids ! j) 0 = Inr (fst (snd (rr ! j))) \<and> snd (snd (rr ! j)) = []"
proof (induction kids arbitrary: st rr j)
  case Nil
  then show ?case by simp
next
  case (Cons node kids)
  obtain ptr st1 where al: "new tree st node = (ptr, st1)" by (cases "new tree st node")
  from Cons.prems(1) al obtain k rr' where k: "getKey node 0 = Inr k"
    and rr': "routing_records tree st1 kids = Inr (rr', st')" and rr: "rr = (ptr, k, []) # rr'"
    by (auto simp: bindE_Inr_iff)
  show ?case
  proof (cases j)
    case 0
    then show ?thesis using k rr by simp
  next
    case (Suc j')
    then show ?thesis using Cons.IH [OF rr', of j'] Cons.prems(2) rr by simp
  qed
qed

lemma upt2: "[0..<2::nat] = [0, 1]" by code_simp

lemmas rd_ev = records_def record_at_def getPtr_def getKey_def getVal_def nkeys_def kvPos_def
  getOffset_def offsetPos_def Assert_def HEADER_def Uint16_at_def Uint64_at_def Uint16_def
  Uint64_def subslice_def

lemmas ev = nodeAppendKV_def setPtr_def kvPos_def getOffset_def setOffset_def offsetPos_def
  nkeys_def Assert_def HEADER_def PutUint16_at_def PutUint64_at_def copy_at_def Uint16_at_def
  store_def

lemmas bd_ev = leafInsert_def nodeReplaceKidN_def nodeAppendRange_def setHeader_def
  BNODE_LEAF_def BNODE_NODE_def le16_def le64_def

lemma nbytes_zero_page: "4 \<le> m \<Longrightarrow> nbytes (replicate m 0) = Inr 4"
  by (simp add: nbytes_def nkeys_def Uint16_at_def Uint16_def kvPos_def Assert_def getOffset_def HEADER_def)

lemma nodeSplit3_fitting:
  assumes "nbytes old = Inr nb" and "unat nb \<le> BTREE_PAGE_SIZE" and "BTREE_PAGE_SIZE \<le> length old"
  shows "nodeSplit3 old = Inr (1, [take BTREE_PAGE_SIZE old, [], []])"
  using assms by (simp add: nodeSplit3_def reslice_def)

lemma nodeSplit3_oversized:
  assumes "nbytes old = Inr nb" and "BTREE_PAGE_SIZE < unat nb"
  shows "nodeSplit3 old = Inr (2, [replicate BTREE_PAGE_SIZE 0, replicate BTREE_PAGE_SIZE 0, []])"
  using assms
  by (simp add: nodeSplit3_def nodeSplit2_def nbytes_zero_page reslice_def BTREE_PAGE_SIZE_def)

section \<open>Theorems\<close>

text \<open>
  C1. Let the keys of a node, all of them readable, be strictly increasing under
  \<open>bytes.Compare\<close>. Then \<open>nodeLookupLE\<close> returns an index \<open>r\<close> that qualifies (it is 0, which
  is never compared, or its key is at most the target) and that is the greatest such
  index: every index whose key is at most the target is at most \<open>r\<close>. The scan stops
  early: no index beyond a key that exceeds the target is ever handed to \<open>getKey\<close>.
\<close>

theorem nodeLookupLE_greatest_le:
  assumes ks: "keys_of node = Inr ks"
    and srt: "sorted_wrt (\<lambda>a b. bytes_Compare a b < 0) ks"
  shows "\<exists>r seen. nodeLookupLE node key = Inr r \<and> nodeLookupLE_scan node key = Inr (r, seen) \<and>
     (unat r = 0 \<or> (unat r < length ks \<and> bytes_Compare (ks ! unat r) key \<le> 0)) \<and>
     (\<forall>i<length ks. bytes_Compare (ks ! i) key \<le> 0 \<longrightarrow> i \<le> unat r) \<and>
     (\<forall>j. 0 < j \<and> j < length ks \<and> 0 < bytes_Compare (ks ! j) key \<longrightarrow>
          (\<forall>s\<in>set seen. unat s \<le> j))"
proof -
  from ks obtain n where n: "nkeys node = Inr n"
    and m: "mapE (\<lambda>i. getKey node (of_nat i)) [0..<unat n] = Inr ks"
    by (auto simp: keys_of_def bindE_Inr_iff)
  from m have len: "length ks = unat n"
    and get: "\<forall>i<unat n. getKey node (of_nat i) = Inr (ks ! i)"
    by (simp_all add: mapE_Inr_iff)
  have srt': "sorted_wrt (<) ks" using srt by (simp add: cmp_lt)
  have "\<exists>r seen'. lookup_scan node key n 1 0 [] = Inr (r, seen') \<and>
         (unat r = 0 \<or> (unat r < length ks \<and> ks ! unat r \<le> key)) \<and>
         (\<forall>j<length ks. ks ! j \<le> key \<longrightarrow> j \<le> unat r) \<and>
         (\<forall>j. 0 < j \<and> j < length ks \<and> key < ks ! j \<longrightarrow> (\<forall>s\<in>set seen'. unat s \<le> j))"
  proof (rule lookup_scan_correct [OF _ len srt'])
    show "\<forall>j. unat (1::u16) \<le> j \<and> j < unat n \<longrightarrow> getKey node (word_of_nat j) = Inr (ks ! j)"
      using get by simp
  qed simp_all
  then obtain r seen where sc: "lookup_scan node key n 1 0 [] = Inr (r, seen)"
    and c1: "unat r = 0 \<or> (unat r < length ks \<and> ks ! unat r \<le> key)"
    and c2: "\<forall>j<length ks. ks ! j \<le> key \<longrightarrow> j \<le> unat r"
    and c3: "\<forall>j. 0 < j \<and> j < length ks \<and> key < ks ! j \<longrightarrow> (\<forall>s\<in>set seen. unat s \<le> j)"
    by blast
  have a: "nodeLookupLE_scan node key = Inr (r, seen)"
    using n sc by (simp add: nodeLookupLE_scan_def)
  have b: "nodeLookupLE node key = Inr r"
    using n sc lookup_loop_scan [of node key n 1 0 "[]"] by (simp add: nodeLookupLE_def)
  from a b c1 c2 c3 show ?thesis
    unfolding cmp_le cmp_gt by blast
qed

text \<open>
  The hypotheses hold for a leaf with the keys 1, 3 and 5; looking up 4 gives index 1.
\<close>

theorem nodeLookupLE_greatest_le_witness:
  "keys_of ([2,0, 3,0] @ replicate 24 0 @ [5,0, 10,0, 15,0] @ [1,0,0,0,1] @ [1,0,0,0,3] @ [1,0,0,0,5])
      = Inr [[1], [3], [5]]
   \<and> sorted_wrt (\<lambda>a b. bytes_Compare a b < 0) [[1], [3], [5::byte]]
   \<and> nodeLookupLE ([2,0, 3,0] @ replicate 24 0 @ [5,0, 10,0, 15,0] @ [1,0,0,0,1] @ [1,0,0,0,3] @ [1,0,0,0,5]) [4]
      = Inr 1
   \<and> (\<exists>r seen. nodeLookupLE ([2,0, 3,0] @ replicate 24 0 @ [5,0, 10,0, 15,0] @ [1,0,0,0,1] @ [1,0,0,0,3] @ [1,0,0,0,5]) [4] = Inr r
        \<and> (\<forall>i<length [[1], [3], [5::byte]]. bytes_Compare ([[1], [3], [5]] ! i) [4] \<le> 0 \<longrightarrow> i \<le> unat r))"
proof -
  have h1: "keys_of ([2,0, 3,0] @ replicate 24 0 @ [5,0, 10,0, 15,0] @ [1,0,0,0,1] @ [1,0,0,0,3] @ [1,0,0,0,5])
      = Inr [[1], [3], [5]]"
    by code_simp
  have h2: "sorted_wrt (\<lambda>a b. bytes_Compare a b < 0) [[1], [3], [5::byte]]"
    by simp
  have h3: "nodeLookupLE ([2,0, 3,0] @ replicate 24 0 @ [5,0, 10,0, 15,0] @ [1,0,0,0,1] @ [1,0,0,0,3] @ [1,0,0,0,5]) [4]
      = Inr 1"
    by code_simp
  from nodeLookupLE_greatest_le [OF h1 h2, of "[4]"] h1 h2 h3 show ?thesis
    by blast
qed

text \<open>
  C2, as the code has it. \<open>leafInsert\<close> checks neither the size of the buffer nor the
  sizes of the key and the value. Let \<open>old\<close> be a node whose records are all readable, \<open>idx\<close> at most its key
  count, and let the buffer \<open>buf\<close> (distinct from \<open>old\<close>) have room for the new node:
  header, pointer and offset tables for one more key, the old records and the new one,
  all below \<open>2^16\<close> bytes. Then \<open>leafInsert\<close> returns a leaf whose key count is that of
  \<open>old\<close> plus one (without wrap-around) and whose record sequence is the records of \<open>old\<close>
  before \<open>idx\<close>, then the record \<open>(0, key, val)\<close>, then the records of \<open>old\<close> from \<open>idx\<close>
  on, each one position further right.
\<close>

theorem leafInsert_record_sequence:
  assumes old: "records old = Inr recs"
    and idx: "unat idx \<le> length recs"
    and fit: "4 + 10 * (length recs + 1) + total recs + (4 + length key + length val) \<le> length buf"
    and fit16: "4 + 10 * (length recs + 1) + total recs + (4 + length key + length val) < 65536"
  shows "\<exists>n buf'. nkeys old = Inr n \<and> leafInsert buf old idx key val = Inr buf'
     \<and> btype buf' = Inr BNODE_LEAF
     \<and> nkeys buf' = Inr (n + 1) \<and> unat (n + 1) = unat n + 1
     \<and> records buf' = Inr (take (unat idx) recs @ [(0, key, val)] @ drop (unat idx) recs)"
proof -
  from records_Inr [OF old] obtain n where n: "nkeys old = Inr n" and len: "length recs = unat n"
    and rd: "\<forall>i<unat n. record_at old (of_nat i) = Inr (recs ! i)"
    by blast
  define I where "I = unat idx"
  define xs1 where "xs1 = take I recs"
  define xs2 where "xs2 = drop I recs"
  define r :: rec where "r = (0, key, val)"
  have rs: "rsize r = 4 + length key + length val" by (simp add: r_def)
  have "(n + 1 :: u16) = of_nat (unat n + 1)" by simp
  moreover have "unat n + 1 < 65536" using fit16 len by simp
  ultimately have un1: "unat (n + 1) = unat n + 1" by (simp only: u16_nat)
  have IN: "I \<le> unat n" using idx len by (simp add: I_def)
  have lx1: "length xs1 = I" using IN len by (simp add: xs1_def)
  have lx2: "length xs2 = unat n - I" using len by (simp add: xs2_def)
  have tt: "total xs1 + total xs2 = total recs" unfolding xs1_def xs2_def by (rule total_take_drop)
  have h1: "4 + 10 * unat (n + 1) \<le> length buf" "4 + 10 * unat (n + 1) < 65536"
    using fit fit16 len un1 by simp_all
  from setHeader_lay [OF h1, of BNODE_LEAF]
  obtain new1 where s1: "setHeader buf BNODE_LEAF (n + 1) = Inr new1"
    and l1: "lay new1 BNODE_LEAF (n + 1) []" and L1: "length new1 = length buf"
    by blast
  have src1: "\<forall>i<unat idx. record_at old (0 + of_nat i) = Inr (xs1 ! i)"
    using rd IN by (simp add: xs1_def I_def)
  have "\<exists>nd'. nodeAppendRange new1 old 0 0 idx = Inr nd' \<and> lay nd' BNODE_LEAF (n + 1) ([] @ xs1)
          \<and> length nd' = length new1"
  proof (rule nodeAppendRange_lay [OF l1 _ src1])
    show "(0::u16) = of_nat (length ([]::rec list))" by simp
    show "length xs1 = unat idx" using lx1 by (simp add: I_def)
    show "length ([]::rec list) + unat idx \<le> unat (n + 1)" using IN un1 by (simp add: I_def)
    show "4 + 10 * unat (n + 1) + total ([] @ xs1) \<le> length new1"
      using fit tt L1 un1 len by simp
    show "4 + 10 * unat (n + 1) + total ([] @ xs1) < 65536"
      using fit16 tt un1 len by simp
  qed
  then obtain new2 where s2: "nodeAppendRange new1 old 0 0 idx = Inr new2"
    and l2: "lay new2 BNODE_LEAF (n + 1) xs1" and L2: "length new2 = length buf"
    using L1 by auto
  have idxw: "idx = of_nat (length xs1)" using lx1 by (simp add: I_def)
  have "\<exists>nd'. nodeAppendKV new2 (of_nat (length xs1)) 0 key val = Inr nd'
          \<and> lay nd' BNODE_LEAF (n + 1) (xs1 @ [(0, key, val)]) \<and> length nd' = length new2"
  proof (rule nodeAppendKV_lay [OF l2])
    show "length xs1 < unat (n + 1)" using lx1 IN un1 by simp
    show "4 + 10 * unat (n + 1) + total xs1 + rsize (0, key, val) \<le> length new2"
      using fit tt L2 un1 len by simp
    show "4 + 10 * unat (n + 1) + total xs1 + rsize (0, key, val) < 65536"
      using fit16 tt un1 len by simp
  qed
  then obtain new3 where s3: "nodeAppendKV new2 idx 0 key val = Inr new3"
    and l3: "lay new3 BNODE_LEAF (n + 1) (xs1 @ [r])" and L3: "length new3 = length buf"
    using L2 idxw by (auto simp: r_def)
  have le: "idx \<le> n" using IN by (simp add: word_le_nat_alt I_def)
  have usub: "unat (n - idx) = unat n - I" using le by (simp add: unat_sub I_def)
  have src2: "\<forall>i<unat (n - idx). record_at old (idx + of_nat i) = Inr (xs2 ! i)"
  proof (intro allI impI)
    fix i assume "i < unat (n - idx)"
    then have i: "I + i < unat n" using usub by simp
    have e: "idx + of_nat i = (of_nat (I + i) :: u16)" by (simp add: I_def)
    from rd i have "record_at old (of_nat (I + i)) = Inr (recs ! (I + i))" by blast
    then show "record_at old (idx + of_nat i) = Inr (xs2 ! i)"
      unfolding e using i len by (simp add: xs2_def)
  qed
  have "\<exists>nd'. nodeAppendRange new3 old (idx + 1) idx (n - idx) = Inr nd'
          \<and> lay nd' BNODE_LEAF (n + 1) ((xs1 @ [r]) @ xs2) \<and> length nd' = length new3"
  proof (rule nodeAppendRange_lay [OF l3 _ src2])
    show "idx + 1 = of_nat (length (xs1 @ [r]))" using lx1 by (simp add: I_def)
    show "length xs2 = unat (n - idx)" using lx2 usub by simp
    show "length (xs1 @ [r]) + unat (n - idx) \<le> unat (n + 1)" using lx1 IN un1 usub by simp
    show "4 + 10 * unat (n + 1) + total ((xs1 @ [r]) @ xs2) \<le> length new3"
      using fit tt L3 un1 len rs by (simp add: total_append) (simp add: total_def)
    show "4 + 10 * unat (n + 1) + total ((xs1 @ [r]) @ xs2) < 65536"
      using fit16 tt un1 len rs by (simp add: total_append) (simp add: total_def)
  qed
  then obtain new4 where s4: "nodeAppendRange new3 old (idx + 1) idx (n - idx) = Inr new4"
    and l4: "lay new4 BNODE_LEAF (n + 1) ((xs1 @ [r]) @ xs2)"
    by blast
  have full: "length ((xs1 @ [r]) @ xs2) = unat (n + 1)" using lx1 lx2 IN un1 by simp
  have li: "leafInsert buf old idx key val = Inr new4"
    unfolding leafInsert_def n bindE_Inr s1 s2 s3 s4 ..
  have rec: "records new4 = Inr (take (unat idx) recs @ [(0, key, val)] @ drop (unat idx) recs)"
    using lay_records [OF l4 full] by (simp add: xs1_def xs2_def r_def I_def)
  from n li lay_btype [OF l4] lay_nkeys [OF l4] un1 rec show ?thesis by blast
qed

text \<open>
  A leaf with the keys 1 and 5, a page-sized buffer, and key 3 inserted at index 1.
\<close>

theorem leafInsert_record_sequence_witness:
  "records ([2,0, 2,0] @ replicate 16 0 @ [6,0, 12,0] @ [1,0,1,0, 1, 10] @ [1,0,1,0, 5, 50])
      = Inr [(0, [1], [10]), (0, [5], [50])]
   \<and> unat (1::u16) \<le> length [(0::u64, [1::byte], [10::byte]), (0, [5], [50])]
   \<and> 4 + 10 * (length [(0::u64, [1::byte], [10::byte]), (0, [5], [50])] + 1)
        + total [(0, [1], [10]), (0, [5], [50])] + (4 + length [3::byte] + length [30::byte])
       \<le> length (replicate 4096 (0::byte))
   \<and> bindE (leafInsert (replicate 4096 0)
              ([2,0, 2,0] @ replicate 16 0 @ [6,0, 12,0] @ [1,0,1,0, 1, 10] @ [1,0,1,0, 5, 50])
              1 [3] [30]) records
      = Inr [(0, [1], [10]), (0, [3], [30]), (0, [5], [50])]"
proof -
  have h1: "records ([2,0, 2,0] @ replicate 16 0 @ [6,0, 12,0] @ [1,0,1,0, 1, 10] @ [1,0,1,0, 5, 50])
      = Inr [(0, [1], [10]), (0, [5], [50])]"
    by (simp add: rd_ev upt2 nth_append)
  have h2: "unat (1::u16) \<le> length [(0::u64, [1::byte], [10::byte]), (0, [5], [50])]"
    by simp
  have h3: "4 + 10 * (length [(0::u64, [1::byte], [10::byte]), (0, [5], [50])] + 1)
        + total [(0, [1], [10]), (0, [5], [50])] + (4 + length [3::byte] + length [30::byte])
       \<le> length (replicate 4096 (0::byte))"
    by (simp add: total_def)
  have h4: "4 + 10 * (length [(0::u64, [1::byte], [10::byte]), (0, [5], [50])] + 1)
        + total [(0, [1], [10]), (0, [5], [50])] + (4 + length [3::byte] + length [30::byte])
       < 65536"
    by (simp add: total_def)
  from leafInsert_record_sequence [OF h1 h2 h3 h4]
  have "bindE (leafInsert (replicate 4096 0)
              ([2,0, 2,0] @ replicate 16 0 @ [6,0, 12,0] @ [1,0,1,0, 1, 10] @ [1,0,1,0, 5, 50])
              1 [3] [30]) records
      = Inr [(0, [1], [10]), (0, [3], [30]), (0, [5], [50])]"
    by auto
  with h1 h2 h3 show ?thesis by blast
qed

text \<open>
  The claim C2 as stated, for every key and value, fails. Inserting a key of 65536 bytes
  into an empty leaf, with a zeroed page as the buffer, returns normally a leaf whose
  only record has the empty key: the length field holds 0 and the value byte lies where
  the key should start. With a buffer of 20 bytes and a value of 5 bytes the call
  returns normally as well, and the value of the record cannot be read back.
\<close>

theorem leafInsert_record_sequence_counterexample:
  "records [2, 0, 0, 0] = Inr []
   \<and> unat (0::u16) \<le> length ([]::rec list)
   \<and> bindE (leafInsert (replicate 4096 0) [2, 0, 0, 0] 0 (replicate 65536 65) [7]) records
      = Inr [(0, [], [7])]
   \<and> [(0, [], [7])] \<noteq> take (unat (0::u16)) [] @ [(0::u64, replicate 65536 (65::byte), [7::byte])]
        @ drop (unat (0::u16)) []
   \<and> bindE (leafInsert (replicate 20 0) [2, 0, 0, 0] 0 [3] [1, 2, 3, 4, 5]) records
      = Inl BoundsPanic"
  by (simp add: bd_ev ev rd_ev nth_append)

text \<open>
  C3. \<open>nodeSplit3\<close> on a node that does not fit the page: a leaf in a two-page buffer
  with two records of 3005 bytes each, 6034 bytes in all. Since \<open>nodeSplit2\<close> has an empty
  body, the call returns two parts that are the untouched zeroed buffers: both have key
  count 0 and no records, and the two records of the input are in neither.
\<close>

theorem nodeSplit3_oversized_leaf_yields_empty_parts:
  "records ([2,0, 2,0] @ replicate 16 0 @ [189,11, 122,23]
        @ [1,0, 184,11, 97] @ replicate 3000 120 @ [1,0, 184,11, 98] @ replicate 3000 121
        @ replicate 2158 0)
     = Inr [(0, [97], replicate 3000 120), (0, [98], replicate 3000 121)]
   \<and> nbytes ([2,0, 2,0] @ replicate 16 0 @ [189,11, 122,23]
        @ [1,0, 184,11, 97] @ replicate 3000 120 @ [1,0, 184,11, 98] @ replicate 3000 121
        @ replicate 2158 0) = Inr 6034
   \<and> nodeSplit3 ([2,0, 2,0] @ replicate 16 0 @ [189,11, 122,23]
        @ [1,0, 184,11, 97] @ replicate 3000 120 @ [1,0, 184,11, 98] @ replicate 3000 121
        @ replicate 2158 0)
     = Inr (2, [replicate 4096 0, replicate 4096 0, []])
   \<and> nkeys (replicate 4096 0) = Inr 0
   \<and> records (replicate 4096 0) = Inr []"
  by (simp add: nodeSplit3_def nodeSplit2_def reslice_def BTREE_PAGE_SIZE_def nbytes_def
      rd_ev upt2 nth_append)

text \<open>
  C4, as the code has it. \<open>nodeReplaceKidN\<close> checks neither the size of the buffer nor
  that a child has a first key. Let \<open>old\<close> be a node whose records are all readable, \<open>idx\<close> below its key count,
  \<open>kids\<close> a non-empty list of children whose routing records (pointer from \<open>tree.new\<close>,
  first key of the child, empty value) are \<open>rr\<close>, and let the buffer \<open>buf\<close> have room for
  the new node, all below \<open>2^16\<close> bytes. Then \<open>nodeReplaceKidN\<close> returns an internal node
  with key count \<open>old.nkeys() + len(kids) - 1\<close> (without wrap-around) whose record sequence
  is the records of \<open>old\<close> before \<open>idx\<close>, then \<open>rr\<close>, then the records of \<open>old\<close> after
  \<open>idx\<close>; the page store is left as the allocations of the children leave it.
\<close>

theorem nodeReplaceKidN_record_sequence:
  assumes old: "records old = Inr recs"
    and idx: "unat idx < length recs"
    and kids: "kids \<noteq> []"
    and rr: "routing_records tree st kids = Inr (rr, st')"
    and fit: "4 + 10 * (length recs + length kids - 1)
        + total (take (unat idx) recs @ rr @ drop (unat idx + 1) recs) \<le> length buf"
    and fit16: "4 + 10 * (length recs + length kids - 1)
        + total (take (unat idx) recs @ rr @ drop (unat idx + 1) recs) < 65536"
  shows "\<exists>n buf'. nkeys old = Inr n
     \<and> nodeReplaceKidN tree st buf old idx kids = Inr (buf', st')
     \<and> btype buf' = Inr BNODE_NODE
     \<and> nkeys buf' = Inr (n + of_nat (length kids) - 1)
     \<and> unat (n + of_nat (length kids) - 1) = unat n + length kids - 1
     \<and> records buf' = Inr (take (unat idx) recs @ rr @ drop (unat idx + 1) recs)
     \<and> length rr = length kids
     \<and> (\<forall>j<length kids. getKey (kids ! j) 0 = Inr (fst (snd (rr ! j))) \<and> snd (snd (rr ! j)) = [])"
proof -
  from records_Inr [OF old] obtain n where n: "nkeys old = Inr n" and len: "length recs = unat n"
    and rd: "\<forall>i<unat n. record_at old (of_nat i) = Inr (recs ! i)"
    by blast
  define I where "I = unat idx"
  define K where "K = length kids"
  define N where "N = unat n"
  define xs1 where "xs1 = take I recs"
  define xs2 where "xs2 = drop (I + 1) recs"
  define T where "T = total (xs1 @ rr @ xs2)"
  define n' where "n' = n + of_nat K - 1"
  have K1: "1 \<le> K" using kids by (cases kids) (simp_all add: K_def)
  have IN: "I < N" using idx len by (simp add: I_def N_def)
  have lrr: "length rr = K" using routing_records_length [OF rr] by (simp add: K_def)
  have F: "4 + 10 * (N + K - 1) + T \<le> length buf" and F16: "4 + 10 * (N + K - 1) + T < 65536"
    using fit fit16 len by (simp_all add: T_def xs1_def xs2_def I_def K_def N_def)
  obtain K' where K': "K = Suc K'" using K1 by (cases K) simp_all
  have "n' = of_nat (N + K - 1)" unfolding n'_def K' by (simp add: N_def)
  moreover have "N + K - 1 < 65536" using F16 by simp
  ultimately have un': "unat n' = N + K - 1" by (simp only: u16_nat)
  have lx1: "length xs1 = I" using IN len by (simp add: xs1_def N_def)
  have lx2: "length xs2 = N - (I + 1)" using len by (simp add: xs2_def N_def)
  have t1: "total ([] @ xs1) \<le> T" by (simp add: T_def total_append)
  have t2: "total (xs1 @ rr) \<le> T" by (simp add: T_def total_append)
  have h1: "4 + 10 * unat n' \<le> length buf" "4 + 10 * unat n' < 65536"
    using F F16 un' by simp_all
  from setHeader_lay [OF h1, of BNODE_NODE]
  obtain new1 where s1: "setHeader buf BNODE_NODE n' = Inr new1"
    and l1: "lay new1 BNODE_NODE n' []" and L1: "length new1 = length buf"
    by blast
  have src1: "\<forall>i<unat idx. record_at old (0 + of_nat i) = Inr (xs1 ! i)"
    using rd IN by (simp add: xs1_def I_def N_def)
  have "\<exists>nd'. nodeAppendRange new1 old 0 0 idx = Inr nd' \<and> lay nd' BNODE_NODE n' ([] @ xs1)
          \<and> length nd' = length new1"
  proof (rule nodeAppendRange_lay [OF l1 _ src1])
    show "(0::u16) = of_nat (length ([]::rec list))" by simp
    show "length xs1 = unat idx" using lx1 by (simp add: I_def)
    show "length ([]::rec list) + unat idx \<le> unat n'" using IN un' K1 by (simp add: I_def)
    show "4 + 10 * unat n' + total ([] @ xs1) \<le> length new1" using F t1 L1 un' by simp
    show "4 + 10 * unat n' + total ([] @ xs1) < 65536" using F16 t1 un' by simp
  qed
  then obtain new2 where s2: "nodeAppendRange new1 old 0 0 idx = Inr new2"
    and l2: "lay new2 BNODE_NODE n' xs1" and L2: "length new2 = length buf"
    using L1 by auto
  have "\<exists>nd'. replace_kids tree st new2 idx 0 kids = Inr (nd', st')
          \<and> lay nd' BNODE_NODE n' (xs1 @ rr) \<and> length nd' = length new2"
  proof (rule replace_kids_lay [OF _ rr l2, of T])
    show "4 + 10 * unat n' + T < 65536" using F16 un' by simp
    show "idx + of_nat 0 = (of_nat (length xs1) :: u16)" using lx1 by (simp add: I_def)
    show "length xs1 + length kids \<le> unat n'" using lx1 IN un' by (simp add: K_def)
    show "total (xs1 @ rr) \<le> T" by (rule t2)
    show "4 + 10 * unat n' + T \<le> length new2" using F L2 un' by simp
  qed
  then obtain new3 where s3: "replace_kids tree st new2 idx 0 kids = Inr (new3, st')"
    and l3: "lay new3 BNODE_NODE n' (xs1 @ rr)" and L3: "length new3 = length buf"
    using L2 by auto
  have "(idx + 1 :: u16) = of_nat (I + 1)" by (simp add: I_def)
  moreover have "I + 1 < 65536" using IN unat_u16_lt [of n] by (simp add: N_def)
  ultimately have ui1: "unat (idx + 1) = I + 1" by (simp only: u16_nat)
  have le: "idx + 1 \<le> n" using ui1 IN by (simp add: word_le_nat_alt N_def)
  have usub: "unat (n - (idx + 1)) = N - (I + 1)" using le ui1 by (simp add: unat_sub N_def)
  have src2: "\<forall>i<unat (n - (idx + 1)). record_at old (idx + 1 + of_nat i) = Inr (xs2 ! i)"
  proof (intro allI impI)
    fix i assume "i < unat (n - (idx + 1))"
    then have i: "I + 1 + i < unat n" using usub by (simp add: N_def)
    have e: "idx + 1 + of_nat i = (of_nat (I + 1 + i) :: u16)" by (simp add: I_def)
    from rd i have "record_at old (of_nat (I + 1 + i)) = Inr (recs ! (I + 1 + i))" by blast
    then show "record_at old (idx + 1 + of_nat i) = Inr (xs2 ! i)"
      unfolding e using i len by (simp add: xs2_def)
  qed
  have "\<exists>nd'. nodeAppendRange new3 old (idx + of_nat K) (idx + 1) (n - (idx + 1)) = Inr nd'
          \<and> lay nd' BNODE_NODE n' ((xs1 @ rr) @ xs2) \<and> length nd' = length new3"
  proof (rule nodeAppendRange_lay [OF l3 _ src2])
    show "idx + of_nat K = (of_nat (length (xs1 @ rr)) :: u16)" using lx1 lrr by (simp add: I_def)
    show "length xs2 = unat (n - (idx + 1))" using lx2 usub by simp
    show "length (xs1 @ rr) + unat (n - (idx + 1)) \<le> unat n'" using lx1 lrr IN un' usub by simp
    show "4 + 10 * unat n' + total ((xs1 @ rr) @ xs2) \<le> length new3"
      using F L3 un' by (simp add: T_def)
    show "4 + 10 * unat n' + total ((xs1 @ rr) @ xs2) < 65536"
      using F16 un' by (simp add: T_def)
  qed
  then obtain new4 where s4: "nodeAppendRange new3 old (idx + of_nat K) (idx + 1) (n - (idx + 1)) = Inr new4"
    and l4: "lay new4 BNODE_NODE n' ((xs1 @ rr) @ xs2)"
    by blast
  have full: "length ((xs1 @ rr) @ xs2) = unat n'" using lx1 lx2 lrr IN un' by simp
  have res: "nodeReplaceKidN tree st buf old idx kids = Inr (new4, st')"
    unfolding nodeReplaceKidN_def Let_def n bindE_Inr K_def [symmetric] n'_def [symmetric]
      s1 s2 s3 prod.case s4 ..
  have rec: "records new4 = Inr (take (unat idx) recs @ rr @ drop (unat idx + 1) recs)"
    using lay_records [OF l4 full] by (simp add: xs1_def xs2_def I_def)
  have nk: "nkeys new4 = Inr (n + of_nat (length kids) - 1)"
    using lay_nkeys [OF l4] by (simp add: n'_def K_def)
  have un: "unat (n + of_nat (length kids) - 1) = unat n + length kids - 1"
    using un' by (simp add: n'_def K_def N_def)
  from n res lay_btype [OF l4] nk un rec lrr routing_records_nth [OF rr] show ?thesis
    unfolding K_def by blast
qed

text \<open>
  An internal node with the keys 1 and 5 whose child 0 is replaced by two leaves with
  the first keys 1 and 3; the page store hands out the ids 100, 101, ...
\<close>

theorem nodeReplaceKidN_record_sequence_witness:
  "records ([1,0, 2,0] @ [11,0,0,0,0,0,0,0] @ [12,0,0,0,0,0,0,0] @ [5,0, 10,0]
            @ [1,0,0,0, 1] @ [1,0,0,0, 5])
      = Inr [(11, [1], []), (12, [5], [])]
   \<and> unat (0::u16) < length [(11::u64, [1::byte], []::byte list), (12, [5], [])]
   \<and> [[2,0, 1,0] @ replicate 8 0 @ [6,0] @ [1,0,1,0, 1, 10],
       [2,0, 1,0] @ replicate 8 0 @ [6,0] @ [1,0,1,0, 3, 30::byte]] \<noteq> []
   \<and> routing_records \<lparr>root = 0, get = (\<lambda>st p. []), new = (\<lambda>st node. (of_nat st + 100, Suc st)),
        del = (\<lambda>st p. st)\<rparr> 0
        [[2,0, 1,0] @ replicate 8 0 @ [6,0] @ [1,0,1,0, 1, 10],
         [2,0, 1,0] @ replicate 8 0 @ [6,0] @ [1,0,1,0, 3, 30]]
      = Inr ([(100, [1], []), (101, [3], [])], 2)
   \<and> bindE (nodeReplaceKidN \<lparr>root = 0, get = (\<lambda>st p. []), new = (\<lambda>st node. (of_nat st + 100, Suc st)),
        del = (\<lambda>st p. st)\<rparr> 0 (replicate 4096 0)
              ([1,0, 2,0] @ [11,0,0,0,0,0,0,0] @ [12,0,0,0,0,0,0,0] @ [5,0, 10,0]
                 @ [1,0,0,0, 1] @ [1,0,0,0, 5])
              0
              [[2,0, 1,0] @ replicate 8 0 @ [6,0] @ [1,0,1,0, 1, 10],
               [2,0, 1,0] @ replicate 8 0 @ [6,0] @ [1,0,1,0, 3, 30]])
        (\<lambda>(buf', st'). bindE (records buf') (\<lambda>rs. Inr (rs, st')))
      = Inr ([(100, [1], []), (101, [3], []), (12, [5], [])], 2)"
proof -
  have h1: "records ([1,0, 2,0] @ [11,0,0,0,0,0,0,0] @ [12,0,0,0,0,0,0,0] @ [5,0, 10,0]
            @ [1,0,0,0, 1] @ [1,0,0,0, 5])
      = Inr [(11, [1], []), (12, [5], [])]"
    by (simp add: rd_ev upt2 nth_append)
  have h2: "unat (0::u16) < length [(11::u64, [1::byte], []::byte list), (12, [5], [])]"
    by simp
  have h3: "[[2,0, 1,0] @ replicate 8 0 @ [6,0] @ [1,0,1,0, 1, 10],
       [2,0, 1,0] @ replicate 8 0 @ [6,0] @ [1,0,1,0, 3, 30::byte]] \<noteq> []"
    by simp
  have h4: "routing_records \<lparr>root = 0, get = (\<lambda>st p. []), new = (\<lambda>st node. (of_nat st + 100, Suc st)),
        del = (\<lambda>st p. st)\<rparr> 0
        [[2,0, 1,0] @ replicate 8 0 @ [6,0] @ [1,0,1,0, 1, 10],
         [2,0, 1,0] @ replicate 8 0 @ [6,0] @ [1,0,1,0, 3, 30]]
      = Inr ([(100, [1], []), (101, [3], [])], 2)"
    by (simp add: rd_ev nth_append)
  have h5: "4 + 10 * (length [(11::u64, [1::byte], []::byte list), (12, [5], [])]
              + length [[2,0, 1,0] @ replicate 8 0 @ [6,0] @ [1,0,1,0, 1, 10],
                        [2,0, 1,0] @ replicate 8 0 @ [6,0] @ [1,0,1,0, 3, 30::byte]] - 1)
        + total (take (unat (0::u16)) [(11, [1], []), (12, [5], [])]
                 @ [(100, [1], []), (101, [3], [])]
                 @ drop (unat (0::u16) + 1) [(11, [1], []), (12, [5], [])])
       \<le> length (replicate 4096 (0::byte))"
    by (simp add: total_def)
  have h6: "4 + 10 * (length [(11::u64, [1::byte], []::byte list), (12, [5], [])]
              + length [[2,0, 1,0] @ replicate 8 0 @ [6,0] @ [1,0,1,0, 1, 10],
                        [2,0, 1,0] @ replicate 8 0 @ [6,0] @ [1,0,1,0, 3, 30::byte]] - 1)
        + total (take (unat (0::u16)) [(11, [1], []), (12, [5], [])]
                 @ [(100, [1], []), (101, [3], [])]
                 @ drop (unat (0::u16) + 1) [(11, [1], []), (12, [5], [])])
       < 65536"
    by (simp add: total_def)
  from nodeReplaceKidN_record_sequence [OF h1 h2 h3 h4 h5 h6]
  have "bindE (nodeReplaceKidN \<lparr>root = 0, get = (\<lambda>st p. []), new = (\<lambda>st node. (of_nat st + 100, Suc st)),
        del = (\<lambda>st p. st)\<rparr> 0 (replicate 4096 0)
              ([1,0, 2,0] @ [11,0,0,0,0,0,0,0] @ [12,0,0,0,0,0,0,0] @ [5,0, 10,0]
                 @ [1,0,0,0, 1] @ [1,0,0,0, 5])
              0
              [[2,0, 1,0] @ replicate 8 0 @ [6,0] @ [1,0,1,0, 1, 10],
               [2,0, 1,0] @ replicate 8 0 @ [6,0] @ [1,0,1,0, 3, 30]])
        (\<lambda>(buf', st'). bindE (records buf') (\<lambda>rs. Inr (rs, st')))
      = Inr ([(100, [1], []), (101, [3], []), (12, [5], [])], 2)"
    by auto
  with h1 h2 h3 h4 show ?thesis by blast
qed

text \<open>
  The claim C4 as stated, for every non-empty list of children, fails. With an empty
  leaf as the only child, \<open>getKey(0)\<close> of the child fails its assertion (after
  \<open>tree.new\<close> has been called for it); with a buffer of 30 bytes, too short for the three
  records, a write is out of range.
\<close>

theorem nodeReplaceKidN_record_sequence_counterexample:
  "records ([1,0, 2,0] @ [11,0,0,0,0,0,0,0] @ [12,0,0,0,0,0,0,0] @ [5,0, 10,0]
            @ [1,0,0,0, 1] @ [1,0,0,0, 5])
      = Inr [(11, [1], []), (12, [5], [])]
   \<and> btype ([1,0, 2,0] @ [11,0,0,0,0,0,0,0] @ [12,0,0,0,0,0,0,0] @ [5,0, 10,0]
            @ [1,0,0,0, 1] @ [1,0,0,0, 5]) = Inr BNODE_NODE
   \<and> (0::u16) < 2
   \<and> nodeReplaceKidN
        \<lparr>root = 0, get = (\<lambda>st p. []), new = (\<lambda>st node. (of_nat st + 100, Suc st)),
        del = (\<lambda>st p. st)\<rparr> (0::nat) (replicate 4096 0)
        ([1,0, 2,0] @ [11,0,0,0,0,0,0,0] @ [12,0,0,0,0,0,0,0] @ [5,0, 10,0]
            @ [1,0,0,0, 1] @ [1,0,0,0, 5])
        0 [[2, 0, 0, 0]]
      = Inl (AssertFailed ''index is greater than nkeys'')
   \<and> nodeReplaceKidN
        \<lparr>root = 0, get = (\<lambda>st p. []), new = (\<lambda>st node. (of_nat st + 100, Suc st)),
        del = (\<lambda>st p. st)\<rparr> (0::nat) (replicate 30 0)
        ([1,0, 2,0] @ [11,0,0,0,0,0,0,0] @ [12,0,0,0,0,0,0,0] @ [5,0, 10,0]
            @ [1,0,0,0, 1] @ [1,0,0,0, 5])
        0 [[2,0, 1,0] @ replicate 8 0 @ [6,0] @ [1,0,1,0, 1, 10]]
      = Inl BoundsPanic"
  by (simp add: bd_ev ev rd_ev btype_def upt2 nth_append)

text \<open>
  C5, as the code has it. \<open>kvPos\<close> does not look at the node kind: in every node, leaf or
  internal, the record of index \<open>idx \<le> nkeys\<close> is at
  \<open>HEADER + 8 * nkeys + 2 * nkeys + offset[idx]\<close> (in 16-bit arithmetic), so the 8 bytes
  per key of the pointer table are there in a leaf as well.
\<close>

theorem kvPos_pointer_table_in_every_node:
  assumes "nkeys node = Inr n" and "idx \<le> n" and "getOffset node idx = Inr off"
  shows "kvPos node idx = Inr (4 + 8 * n + 2 * n + off)"
  using assms by (simp add: kvPos_def Assert_def HEADER_def)

text \<open>A leaf with the single record (k, v): its offset entry 1 is 6, its end at byte 20.\<close>

theorem kvPos_pointer_table_in_every_node_witness:
  "btype ([2,0, 1,0] @ replicate 8 0 @ [6,0] @ [1,0, 1,0, 107, 118]) = Inr BNODE_LEAF
   \<and> nkeys ([2,0, 1,0] @ replicate 8 0 @ [6,0] @ [1,0, 1,0, 107, 118]) = Inr 1
   \<and> (1::u16) \<le> 1
   \<and> getOffset ([2,0, 1,0] @ replicate 8 0 @ [6,0] @ [1,0, 1,0, 107, 118]) 1 = Inr 6
   \<and> kvPos ([2,0, 1,0] @ replicate 8 0 @ [6,0] @ [1,0, 1,0, 107, 118]) 1 = Inr 20"
proof -
  have h0: "btype ([2,0, 1,0] @ replicate 8 0 @ [6,0] @ [1,0, 1,0, 107, 118]) = Inr BNODE_LEAF"
    by code_simp
  have h1: "nkeys ([2,0, 1,0] @ replicate 8 0 @ [6,0] @ [1,0, 1,0, 107, 118]) = Inr 1"
    by code_simp
  have h2: "(1::u16) \<le> 1" by simp
  have h3: "getOffset ([2,0, 1,0] @ replicate 8 0 @ [6,0] @ [1,0, 1,0, 107, 118]) 1 = Inr 6"
    by code_simp
  from kvPos_pointer_table_in_every_node [OF h1 h2 h3] h0 h1 h2 h3 show ?thesis by simp
qed

text \<open>
  The claim C5 as stated fails on that leaf: record 0 is at byte 14 = 4 + 8 + 2, not at
  byte 6 = 4 + 2, and the key is read from there.
\<close>

theorem leaf_kvPos_counterexample:
  "btype ([2,0, 1,0] @ replicate 8 0 @ [6,0] @ [1,0, 1,0, 107, 118]) = Inr BNODE_LEAF
   \<and> nkeys ([2,0, 1,0] @ replicate 8 0 @ [6,0] @ [1,0, 1,0, 107, 118]) = Inr 1
   \<and> getOffset ([2,0, 1,0] @ replicate 8 0 @ [6,0] @ [1,0, 1,0, 107, 118]) 0 = Inr 0
   \<and> kvPos ([2,0, 1,0] @ replicate 8 0 @ [6,0] @ [1,0, 1,0, 107, 118]) 0 = Inr 14
   \<and> kvPos ([2,0, 1,0] @ replicate 8 0 @ [6,0] @ [1,0, 1,0, 107, 118]) 0 \<noteq> Inr (4 + 2 * 1 + 0)
   \<and> getKey ([2,0, 1,0] @ replicate 8 0 @ [6,0] @ [1,0, 1,0, 107, 118]) 0 = Inr [107]"
  by code_simp




text \<open>
  C8. With page size 4096, maximal key size 1000 and maximal value size 3000 the bound
  computed by \<open>init\<close> is 4018, which is at most the page size, so the assertion of
  \<open>init\<close> holds and \<open>init\<close> returns normally.
\<close>

theorem init_assertion_holds:
  "BTREE_PAGE_SIZE = 4096 \<and> BTREE_MAX_KEY_SIZE = 1000 \<and> BTREE_MAX_VAL_SIZE = 3000
   \<and> node1max = 4018 \<and> node1max \<le> BTREE_PAGE_SIZE \<and> init = Inr ()"
  by (simp add: init_def Assert_def node1max_def HEADER_def BTREE_PAGE_SIZE_def
      BTREE_MAX_KEY_SIZE_def BTREE_MAX_VAL_SIZE_def)

text \<open>
  C9. On a node with zero keys \<open>nodeLookupLE\<close> returns index 0 without any fault: the
  loop body, the only place that asserts an index bound, is never entered. Index 0 is
  not a record of that node: a caller that reads the key or the pointer at the returned
  index fails the accessor's bounds assertion.
\<close>

theorem nodeLookupLE_empty_node:
  assumes "nkeys node = Inr 0"
  shows "nodeLookupLE node key = Inr 0
     \<and> nodeLookupLE_scan node key = Inr (0, [])
     \<and> getKey node 0 = Inl (AssertFailed ''index is greater than nkeys'')
     \<and> getPtr node 0 = Inl (AssertFailed ''index less than value'')
     \<and> bindE (nodeLookupLE node key) (getKey node)
         = Inl (AssertFailed ''index is greater than nkeys'')"
  using assms
  by (simp add: nodeLookupLE_def nodeLookupLE_scan_def lookup_loop.simps [of node key 0 1]
      lookup_scan.simps [of node key 0 1] getKey_def getPtr_def Assert_def)

text \<open>An empty leaf: a header with node kind 2 and key count 0.\<close>

theorem nodeLookupLE_empty_node_witness:
  "nkeys [2, 0, 0, 0] = Inr 0
   \<and> nodeLookupLE [2, 0, 0, 0] [7] = Inr 0
   \<and> getKey [2, 0, 0, 0] 0 = Inl (AssertFailed ''index is greater than nkeys'')"
proof -
  have h: "nkeys [2, 0, 0, 0] = Inr 0" by code_simp
  from nodeLookupLE_empty_node [OF h, of "[7]"] h show ?thesis by simp
qed




end
